theory Spec2Isabelle
  imports Complex_Main "HOL-Library.Sublist" "HOL-Library.Multiset"
begin

section \<open>The browsing engine of the file manager (sample/script.js)\<close>

text \<open>
  A shallow embedding of the class \<open>HighSpeedFileManager\<close>: the fields the engine owns
  become a record, every method becomes a function from state to state, and the two
  things the browser supplies (the HTTP backend behind \<open>apiCall\<close> and the string
  comparison \<open>localeCompare\<close>) are passed in as a \<open>host\<close>. Each method runs to
  completion on the single control thread; an \<open>await\<close>ed call is modelled by asking
  the host for the answer at the point of the call. Of the page, the model keeps what the
  file list shows and the last status message; the address bar, the breadcrumb, the
  navigation buttons, the folder tree and the item counter are written by the code and
  read by nothing, and are left out.
\<close>

subsection \<open>JavaScript \<open>Map\<close>: an insertion-ordered association list\<close>

text \<open>
  A \<open>Map\<close> iterates its keys in the order of their first insertion; \<open>set\<close> on a key
  that is present replaces the value and keeps the position.
\<close>

type_synonym ('k, 'v) js_map = "('k \<times> 'v) list"

definition map_get :: "'k \<Rightarrow> ('k, 'v) js_map \<Rightarrow> 'v option" where
  "map_get k m = map_of m k"

definition map_has :: "'k \<Rightarrow> ('k, 'v) js_map \<Rightarrow> bool" where
  "map_has k m = (map_of m k \<noteq> None)"

fun map_set :: "'k \<Rightarrow> 'v \<Rightarrow> ('k, 'v) js_map \<Rightarrow> ('k, 'v) js_map" where
  "map_set k v [] = [(k, v)]"
| "map_set k v ((k', v') # m) =
     (if k' = k then (k, v) # m else (k', v') # map_set k v m)"

definition map_delete :: "'k \<Rightarrow> ('k, 'v) js_map \<Rightarrow> ('k, 'v) js_map" where
  "map_delete k m = filter (\<lambda>kv. fst kv \<noteq> k) m"

definition map_keys :: "('k, 'v) js_map \<Rightarrow> 'k list" where
  "map_keys m = map fst m"

definition map_values :: "('k, 'v) js_map \<Rightarrow> 'v list" where
  "map_values m = map snd m"

text \<open>
  The size limit both caches use after an insertion:
  \<^verbatim>\<open>if (m.size > cap) { const firstKey = m.keys().next().value; m.delete(firstKey); }\<close>
\<close>

definition evict_first :: "nat \<Rightarrow> ('k, 'v) js_map \<Rightarrow> ('k, 'v) js_map" where
  "evict_first cap m =
     (if length m > cap
      then (case map_keys m of [] \<Rightarrow> m | firstKey # _ \<Rightarrow> map_delete firstKey m)
      else m)"

subsection \<open>Strings\<close>

text \<open>
  A string is a list of characters with codes 0 to 255: the UTF-16 code units of the Latin-1
  range, one per character, so \<open>length\<close> is JavaScript's \<open>.length\<close>. Code units above 255
  are outside the type and outside every statement below. On this range
  \<open>String.prototype.toLowerCase\<close> maps \<open>A\<close> to \<open>Z\<close> (65 to 90) and the accented capitals
  U+00C0 to U+00D6 and U+00D8 to U+00DE (192 to 214, 216 to 222) to the code unit 32 above and
  leaves every other code unit alone (U+00D7, the multiplication sign, and U+00DF, the sharp
  s, included). \<open>String.prototype.trim\<close> removes white space and line terminators from both
  ends: on this range the tab, line feed, vertical tab, form feed, carriage return, the
  space and the no-break space U+00A0.
\<close>

definition backslash :: char where
  "backslash = CHR 0x5C"

definition lower_char :: "char \<Rightarrow> char" where
  "lower_char c =
     (let n = (of_char c :: nat)
      in if (65 \<le> n \<and> n \<le> 90) \<or> (192 \<le> n \<and> n \<le> 214) \<or> (216 \<le> n \<and> n \<le> 222)
         then char_of (n + 32) else c)"

definition toLowerCase :: "string \<Rightarrow> string" where
  "toLowerCase s = map lower_char s"

definition is_space :: "char \<Rightarrow> bool" where
  "is_space c =
     (c \<in> set [CHR 0x09, CHR 0x0A, CHR 0x0B, CHR 0x0C, CHR 0x0D, CHR 0x20, CHR 0xA0])"

definition trim :: "string \<Rightarrow> string" where
  "trim s = rev (dropWhile is_space (rev (dropWhile is_space s)))"

definition startsWith :: "string \<Rightarrow> string \<Rightarrow> bool" where
  "startsWith s p = (take (length p) s = p)"

fun includes_str :: "string \<Rightarrow> string \<Rightarrow> bool" where
  "includes_str [] sub = (sub = [])"
| "includes_str (c # s) sub = (startsWith (c # s) sub \<or> includes_str s sub)"

text \<open>
  \<^verbatim>\<open>path = path.replace(/\//g, '\\').replace(/\\+$/, '');
  if (path.length === 2 && path.endsWith(':')) path += '\\';\<close>
\<close>

definition normalizePath :: "string \<Rightarrow> string" where
  "normalizePath path =
     (let p1 = map (\<lambda>c. if c = CHR ''/'' then backslash else c) path;
          p2 = rev (dropWhile (\<lambda>c. c = backslash) (rev p1))
      in if length p2 = 2 \<and> last p2 = CHR '':'' then p2 @ [backslash] else p2)"

subsection \<open>Data\<close>

record item =
  name :: string
  path :: string
  is_file :: bool
  fsize :: "nat option"

text \<open>The uniform envelope \<open>{success, data, error}\<close> of the backend.\<close>

record envelope =
  success :: bool
  data :: "item list"
  error :: string

datatype api_request = ListReq string | SearchReq string string

text \<open>
  \<open>apiCall\<close> either throws (network failure, timeout, HTTP status not ok) or returns the
  decoded envelope.
\<close>

datatype api_result = Threw string | Returned envelope

record host =
  apiCall :: "api_request \<Rightarrow> api_result"
  localeCompare :: "string \<Rightarrow> string \<Rightarrow> int"

datatype view = ListView | GridView | DetailView

datatype severity = StSuccess | StError | StLoading | StInfo

text \<open>
  The status line: what \<open>showStatus\<close> was last called with. Elapsed times are left out of
  the messages, and so is the timer that replaces an error message after five seconds.
\<close>

datatype status_message =
    MsgConnected
  | MsgOffline
  | MsgLoadingPath string
  | MsgItemCount nat
  | MsgError string
  | MsgSearching string
  | MsgFound nat
  | MsgFoundCached nat

text \<open>
  What the element \<open>fileList\<close> shows: nothing yet, the empty-folder notice, every row, the
  detail table, or a window of rows between two spacers (heights in pixels).
\<close>

datatype rendering =
    Blank
  | EmptyState
  | RenderedAll "item list"
  | RenderedDetail "item list"
  | RenderedVirtual int "item list" int

record file_manager =
  isOnline :: bool
  cache :: "(string, envelope) js_map"
  prefetchQueue :: "string list"
  history :: "string list"
  historyIndex :: int
  currentPath :: "string option"
  currentView :: view
  searchQuery :: string
  isSearchMode :: bool
  searchCache :: "(string, item list) js_map"
  visibleItems :: nat
  currentItems :: "item list option"
  fileList :: rendering
  statusText :: "(status_message \<times> severity) option"
  apiCalls :: "api_request list"

text \<open>
  \<open>apiCalls\<close> is the invocation counter of the model: every request handed to \<open>apiCall\<close>
  is appended to it.
\<close>

definition virtualScrollThreshold :: nat where
  "virtualScrollThreshold = 1000"

definition itemHeight :: nat where
  "itemHeight = 36"

definition bufferItems :: nat where
  "bufferItems = 10"

definition constructor :: file_manager where
  "constructor =
     \<lparr>isOnline = False, cache = [], prefetchQueue = [], history = [], historyIndex = - 1,
      currentPath = None, currentView = ListView, searchQuery = [], isSearchMode = False,
      searchCache = [], visibleItems = 50, currentItems = None, fileList = Blank,
      statusText = None, apiCalls = []\<rparr>"

definition showStatus :: "status_message \<Rightarrow> severity \<Rightarrow> file_manager \<Rightarrow> file_manager" where
  "showStatus message type s = s\<lparr>statusText := Some (message, type)\<rparr>"

definition setConnectionStatus :: "bool \<Rightarrow> file_manager \<Rightarrow> file_manager" where
  "setConnectionStatus online s =
     (if isOnline s = online then s
      else if online then showStatus MsgConnected StSuccess (s\<lparr>isOnline := online\<rparr>)
      else showStatus MsgOffline StError (s\<lparr>isOnline := online\<rparr>))"

subsection \<open>Rendering\<close>

text \<open>
  \<open>Array.prototype.sort\<close> with a comparison function is a stable sort; for a consistent
  comparison the result is the one insertion sort computes.
\<close>

fun insertBy :: "('a \<Rightarrow> 'a \<Rightarrow> int) \<Rightarrow> 'a \<Rightarrow> 'a list \<Rightarrow> 'a list" where
  "insertBy cmp x [] = [x]"
| "insertBy cmp x (y # ys) = (if cmp x y \<le> 0 then x # y # ys else y # insertBy cmp x ys)"

definition sortBy :: "('a \<Rightarrow> 'a \<Rightarrow> int) \<Rightarrow> 'a list \<Rightarrow> 'a list" where
  "sortBy cmp xs = foldr (insertBy cmp) xs []"

text \<open>\<open>xs.slice(s, e)\<close> for indices that are not negative.\<close>

definition slice :: "'a list \<Rightarrow> nat \<Rightarrow> nat \<Rightarrow> 'a list" where
  "slice xs s e = take (e - s) (drop s xs)"

text \<open>
  \<open>renderVirtualItems\<close> reads \<open>this.currentItems\<close>; both of its callers have made sure
  that it is set, so the first branch below is never taken.
\<close>

definition renderVirtualItems :: "nat \<Rightarrow> nat \<Rightarrow> file_manager \<Rightarrow> file_manager" where
  "renderVirtualItems startIndex endIndex s =
     (case currentItems s of
        None \<Rightarrow> s
      | Some cur \<Rightarrow>
          let items = slice cur startIndex endIndex;
              topPadding = int startIndex * int itemHeight;
              bottomPadding = (int (length cur) - int endIndex) * int itemHeight
          in s\<lparr>fileList := RenderedVirtual topPadding items bottomPadding\<rparr>)"

definition sortedItems :: "host \<Rightarrow> item list \<Rightarrow> item list" where
  "sortedItems h items =
     (let files = filter is_file items;
          folders = filter (\<lambda>i. \<not> is_file i) items;
          byName = (\<lambda>a b. localeCompare h (name a) (name b))
      in sortBy byName folders @ sortBy byName files)"

definition renderAllItems :: "host \<Rightarrow> item list \<Rightarrow> file_manager \<Rightarrow> file_manager" where
  "renderAllItems h items s =
     (if currentView s = DetailView
      then s\<lparr>fileList := RenderedDetail (sortedItems h items)\<rparr>
      else s\<lparr>fileList := RenderedAll (sortedItems h items)\<rparr>)"

definition renderFileList :: "host \<Rightarrow> item list \<Rightarrow> file_manager \<Rightarrow> file_manager" where
  "renderFileList h items s0 =
     (let s = s0\<lparr>currentItems := Some items\<rparr>
      in if length items = 0 then s\<lparr>fileList := EmptyState\<rparr>
         else if currentView s = ListView \<and> length items > virtualScrollThreshold
         then renderVirtualItems 0 (visibleItems s) s
         else renderAllItems h items s)"

text \<open>
  The scroll offset is a whole, non-negative number of pixels, so
  \<open>Math.floor(scrollTop / itemHeight)\<close> is the integer quotient.
\<close>

definition handleVirtualScroll :: "nat \<Rightarrow> file_manager \<Rightarrow> file_manager" where
  "handleVirtualScroll scrollTop s =
     (case currentItems s of
        None \<Rightarrow> s
      | Some cur \<Rightarrow>
          if currentView s \<noteq> ListView then s
          else
            let startIndex = scrollTop div itemHeight;
                endIndex = min (startIndex + visibleItems s + bufferItems) (length cur)
            in renderVirtualItems startIndex endIndex s)"

text \<open>\<open>Math.ceil(clientHeight / itemHeight)\<close> on a whole number of pixels.\<close>

definition handleResize :: "nat \<Rightarrow> file_manager \<Rightarrow> file_manager" where
  "handleResize clientHeight s =
     (case currentItems s of
        None \<Rightarrow> s
      | Some cur \<Rightarrow>
          if currentView s = ListView \<and> length cur > virtualScrollThreshold
          then s\<lparr>visibleItems := (clientHeight + itemHeight - 1) div itemHeight\<rparr>
          else s)"

definition setView :: "host \<Rightarrow> view \<Rightarrow> file_manager \<Rightarrow> file_manager" where
  "setView h v s0 =
     (let s = s0\<lparr>currentView := v\<rparr>
      in case currentItems s of None \<Rightarrow> s | Some cur \<Rightarrow> renderFileList h cur s)"

subsection \<open>History\<close>

text \<open>\<open>this.history[i]\<close>: \<open>undefined\<close> (here \<open>None\<close>) outside the array.\<close>

definition history_at :: "string list \<Rightarrow> int \<Rightarrow> string option" where
  "history_at hs i = (if 0 \<le> i \<and> i < int (length hs) then Some (hs ! nat i) else None)"

text \<open>\<open>xs.splice(start)\<close> keeps the elements before \<open>start\<close>; a negative \<open>start\<close> counts from the end.\<close>

definition splice_from :: "int \<Rightarrow> 'a list \<Rightarrow> 'a list" where
  "splice_from start xs =
     (if start < 0 then take (nat (max (int (length xs) + start) 0)) xs
      else take (nat start) xs)"

definition addToHistory :: "string \<Rightarrow> file_manager \<Rightarrow> file_manager" where
  "addToHistory p s =
     (if history_at (history s) (historyIndex s) = Some p then s
      else
        let h1 = splice_from (historyIndex s + 1) (history s);
            h2 = h1 @ [p];
            i2 = int (length h2) - 1
        in if length h2 > 50 then s\<lparr>history := tl h2, historyIndex := i2 - 1\<rparr>
           else s\<lparr>history := h2, historyIndex := i2\<rparr>)"

subsection \<open>Navigation, Directory Cache and prefetch\<close>

definition queuePrefetch :: "item list \<Rightarrow> file_manager \<Rightarrow> file_manager" where
  "queuePrefetch items s =
     (let folders = take 5 (filter (\<lambda>i. \<not> is_file i) items)
      in s\<lparr>prefetchQueue :=
             prefetchQueue s @ map path (filter (\<lambda>f. \<not> map_has (path f) (cache s)) folders)\<rparr>)"

text \<open>
  The part of \<open>navigateToPath\<close> after \<open>data\<close> has been obtained: on \<open>data.success\<close> the
  current path, the history, the view and the prefetch queue are updated; otherwise the
  thrown \<open>Error(data.error)\<close> is caught and shown.
\<close>

definition navigate_finish ::
  "host \<Rightarrow> string \<Rightarrow> bool \<Rightarrow> envelope \<Rightarrow> file_manager \<Rightarrow> file_manager" where
  "navigate_finish h p addHist d s =
     (if success d then
        let s1 = s\<lparr>currentPath := Some p\<rparr>;
            s2 = (if addHist then addToHistory p s1 else s1);
            s3 = renderFileList h (data d) s2;
            s4 = queuePrefetch (data d) s3
        in showStatus (MsgItemCount (length (data d))) StSuccess s4
      else showStatus (MsgError (error d)) StError s)"

definition navigateToPath :: "host \<Rightarrow> string \<Rightarrow> bool \<Rightarrow> file_manager \<Rightarrow> file_manager" where
  "navigateToPath h path0 addHist s0 =
     (if path0 = [] \<or> \<not> isOnline s0 then s0
      else
        let p = normalizePath path0;
            s = showStatus (MsgLoadingPath p) StLoading s0
        in case map_get p (cache s) of
             Some d \<Rightarrow> navigate_finish h p addHist d s
           | None \<Rightarrow>
               (let s1 = s\<lparr>apiCalls := apiCalls s @ [ListReq p]\<rparr>
                in (case apiCall h (ListReq p) of
                      Threw msg \<Rightarrow> showStatus (MsgError msg) StError s1
                    | Returned d \<Rightarrow>
                        (let s2 = (if success d
                                   then s1\<lparr>cache := evict_first 100 (map_set p d (cache s1))\<rparr>
                                   else s1)
                         in navigate_finish h p addHist d s2))))"

definition prefetchDirectory :: "host \<Rightarrow> string \<Rightarrow> file_manager \<Rightarrow> file_manager" where
  "prefetchDirectory h p s0 =
     (let s = s0\<lparr>apiCalls := apiCalls s0 @ [ListReq p]\<rparr>
      in case apiCall h (ListReq p) of
           Threw msg \<Rightarrow> s
         | Returned d \<Rightarrow> if success d then s\<lparr>cache := map_set p d (cache s)\<rparr> else s)"

text \<open>One turn of the idle loop: take the first queued path and prefetch it.\<close>

definition prefetchWork :: "host \<Rightarrow> file_manager \<Rightarrow> file_manager" where
  "prefetchWork h s =
     (case prefetchQueue s of
        [] \<Rightarrow> s
      | p # rest \<Rightarrow> prefetchDirectory h p (s\<lparr>prefetchQueue := rest\<rparr>))"

text \<open>
  \<open>goBack\<close> and \<open>goForward\<close> pass \<open>this.history[this.historyIndex]\<close>; outside the array
  that is \<open>undefined\<close>, which \<open>navigateToPath\<close> rejects at once.
\<close>

definition goBack :: "host \<Rightarrow> file_manager \<Rightarrow> file_manager" where
  "goBack h s =
     (if historyIndex s > 0 then
        let s1 = s\<lparr>historyIndex := historyIndex s - 1\<rparr>
        in (case history_at (history s1) (historyIndex s1) of
              None \<Rightarrow> s1
            | Some p \<Rightarrow> navigateToPath h p False s1)
      else s)"

definition goForward :: "host \<Rightarrow> file_manager \<Rightarrow> file_manager" where
  "goForward h s =
     (if historyIndex s < int (length (history s)) - 1 then
        let s1 = s\<lparr>historyIndex := historyIndex s + 1\<rparr>
        in (case history_at (history s1) (historyIndex s1) of
              None \<Rightarrow> s1
            | Some p \<Rightarrow> navigateToPath h p False s1)
      else s)"

text \<open>
  \<open>if (this.currentPath)\<close> in \<open>refreshTree\<close> and in the blank-query branch of
  \<open>performFastSearch\<close>: \<open>null\<close> and the empty string are falsy, and \<open>navigateToPath\<close>
  returns at once on the empty string as well.
\<close>

definition refreshTree :: "host \<Rightarrow> file_manager \<Rightarrow> file_manager" where
  "refreshTree h s0 =
     (let s = s0\<lparr>cache := []\<rparr>
      in case currentPath s of
           None \<Rightarrow> s
         | Some p \<Rightarrow> navigateToPath h p False s)"

subsection \<open>Search\<close>

definition calculateRelevance :: "string \<Rightarrow> string \<Rightarrow> int" where
  "calculateRelevance filename query =
     (let nm = toLowerCase filename;
          q = toLowerCase query
      in if nm = q then 1000
         else if startsWith nm q then 800
         else if includes_str nm (CHR ''_'' # q) \<or> includes_str nm (CHR ''-'' # q)
                 \<or> includes_str nm (CHR '' '' # q) then 600
         else if includes_str nm q then 400
         else 0)"

text \<open>\<open>finalResults.sort((a, b) => relevance(b) - relevance(a))\<close>\<close>

definition rankResults :: "string \<Rightarrow> item list \<Rightarrow> item list" where
  "rankResults query items =
     sortBy (\<lambda>a b. calculateRelevance (name b) query - calculateRelevance (name a) query) items"

text \<open>\<open>this.currentPath || d\<close>: \<open>null\<close> and the empty string are falsy.\<close>

definition path_or :: "string option \<Rightarrow> string \<Rightarrow> string" where
  "path_or p d = (case p of None \<Rightarrow> d | Some x \<Rightarrow> if x = [] then d else x)"

text \<open>
  The requests \<open>performFastSearch\<close> issues before it waits for any of them: the pattern
  \<open>*query*\<close> and, for a query longer than two characters, \<open>*.query*\<close>.
\<close>

definition searchRequests :: "file_manager \<Rightarrow> string \<Rightarrow> api_request list" where
  "searchRequests s query =
     (let directory = path_or (currentPath s) (''C:'' @ [backslash])
      in SearchReq directory (''*'' @ query @ ''*'')
         # (if length query > 2 then [SearchReq directory (''*.'' @ query @ ''*'')] else []))"

text \<open>
  The loop over the settled promises: a result counts when it is fulfilled and its
  envelope is successful; its items are put into the \<open>Map\<close> \<open>allItems\<close> under their path.
\<close>

definition addResult :: "(string, item) js_map \<Rightarrow> api_result \<Rightarrow> (string, item) js_map" where
  "addResult allItems result =
     (case result of
        Threw msg \<Rightarrow> allItems
      | Returned v \<Rightarrow>
          if success v then foldl (\<lambda>m it. map_set (path it) it m) allItems (data v)
          else allItems)"

definition mergeResults :: "api_result list \<Rightarrow> item list" where
  "mergeResults results = map_values (foldl addResult [] results)"

text \<open>\<^verbatim>\<open>const cacheKey = `${this.currentPath || 'root'}:${query.toLowerCase()}`\<close>\<close>

definition searchCacheKey :: "file_manager \<Rightarrow> string \<Rightarrow> string" where
  "searchCacheKey s query = path_or (currentPath s) ''root'' @ '':'' @ toLowerCase query"

text \<open>
  \<open>apiCall\<close> is an \<open>async\<close> function and \<open>Promise.allSettled\<close> never rejects, so nothing
  in the \<open>try\<close> block of \<open>performFastSearch\<close> throws on a well-formed envelope: the
  \<open>catch\<close> branch has no counterpart here.
\<close>

definition performFastSearch :: "host \<Rightarrow> string \<Rightarrow> file_manager \<Rightarrow> file_manager" where
  "performFastSearch h query s0 =
     (if trim query = [] then
        (let s = s0\<lparr>isSearchMode := False, searchCache := []\<rparr>
         in (case currentPath s of
               None \<Rightarrow> s
             | Some p \<Rightarrow> if p = [] then s else navigateToPath h p False s))
      else
        (let s1 = s0\<lparr>isSearchMode := True, searchQuery := query\<rparr>;
             cacheKey = searchCacheKey s1 query
         in (case map_get cacheKey (searchCache s1) of
               Some cachedResults \<Rightarrow>
                 showStatus (MsgFoundCached (length cachedResults)) StSuccess
                   (renderFileList h cachedResults s1)
             | None \<Rightarrow>
                 (let s2 = showStatus (MsgSearching query) StLoading s1;
                      requests = searchRequests s2 query;
                      s3 = s2\<lparr>apiCalls := apiCalls s2 @ requests\<rparr>;
                      results = map (apiCall h) requests;
                      finalResults = rankResults query (mergeResults results);
                      s4 = s3\<lparr>searchCache :=
                                evict_first 50 (map_set cacheKey finalResults (searchCache s3))\<rparr>;
                      s5 = renderFileList h finalResults s4
                  in showStatus (MsgFound (length finalResults)) StSuccess s5))))"

subsection \<open>Waveform\<close>

text \<open>
  JavaScript numbers, as far as the normalisation needs them: a real value, the two
  infinities and \<open>NaN\<close>. Rounding is left out; the sign of zero is left out too, every
  divisor below being a count or a maximum of absolute values.
\<close>

datatype jsnum = Num real | PosInf | NegInf | NaN

fun js_div :: "jsnum \<Rightarrow> jsnum \<Rightarrow> jsnum" where
  "js_div NaN y = NaN"
| "js_div x NaN = NaN"
| "js_div (Num a) (Num b) =
     (if b \<noteq> 0 then Num (a / b)
      else if a = 0 then NaN
      else if a > 0 then PosInf else NegInf)"
| "js_div (Num a) y = Num 0"
| "js_div PosInf (Num b) = (if b \<ge> 0 then PosInf else NegInf)"
| "js_div NegInf (Num b) = (if b \<ge> 0 then NegInf else PosInf)"
| "js_div x y = NaN"

fun js_max2 :: "jsnum \<Rightarrow> jsnum \<Rightarrow> jsnum" where
  "js_max2 NaN y = NaN"
| "js_max2 x NaN = NaN"
| "js_max2 PosInf y = PosInf"
| "js_max2 x PosInf = PosInf"
| "js_max2 NegInf y = y"
| "js_max2 x NegInf = x"
| "js_max2 (Num a) (Num b) = Num (max a b)"

text \<open>\<open>Math.max(...xs)\<close>; of no arguments it is \<open>-Infinity\<close>.\<close>

definition math_max :: "jsnum list \<Rightarrow> jsnum" where
  "math_max xs = foldl js_max2 NegInf xs"

text \<open>
  The downsampling loop of \<open>generateRealWaveform\<close>: \<open>samples\<close> is the canvas width,
  \<open>blockSize = Math.floor(rawData.length / samples)\<close>, and every block's sum of absolute
  samples is divided by \<open>blockSize\<close>. Every index read lies below
  \<open>blockSize * samples \<le> rawData.length\<close>.
\<close>

definition filteredData :: "real list \<Rightarrow> nat \<Rightarrow> jsnum list" where
  "filteredData rawData samples =
     (let blockSize = length rawData div samples
      in map (\<lambda>i. js_div (Num (sum_list (map (\<lambda>j. \<bar>rawData ! (blockSize * i + j)\<bar>) [0..<blockSize])))
                         (Num (real blockSize)))
             [0..<samples])"

text \<open>\<open>const maxValue = Math.max(...filteredData); filteredData.map(val => val / maxValue)\<close>\<close>

definition normalizedData :: "real list \<Rightarrow> nat \<Rightarrow> jsnum list" where
  "normalizedData rawData samples =
     (let fd = filteredData rawData samples;
          maxValue = math_max fd
      in map (\<lambda>val. js_div val maxValue) fd)"

subsection \<open>Runs of the engine\<close>

text \<open>
  The events that drive the engine: the outcome of a connection check, a navigation
  request (address bar, double click, drive selection, \<open>goUp\<close>, \<open>goHome\<close>, re-listing
  after a file operation), the history buttons, refresh, a search, one turn of the idle
  prefetch loop, and the view events.
\<close>

datatype event =
    ConnectionStatus bool
  | Navigate string bool
  | Back
  | Forward
  | Refresh
  | Search string
  | Prefetch
  | Scroll nat
  | Resize nat
  | View view

fun step :: "host \<Rightarrow> event \<Rightarrow> file_manager \<Rightarrow> file_manager" where
  "step h (ConnectionStatus b) s = setConnectionStatus b s"
| "step h (Navigate p a) s = navigateToPath h p a s"
| "step h Back s = goBack h s"
| "step h Forward s = goForward h s"
| "step h Refresh s = refreshTree h s"
| "step h (Search q) s = performFastSearch h q s"
| "step h Prefetch s = prefetchWork h s"
| "step h (Scroll y) s = handleVirtualScroll y s"
| "step h (Resize y) s = handleResize y s"
| "step h (View v) s = setView h v s"

text \<open>A run: each event comes with the host's behaviour at that moment.\<close>

fun run :: "(host \<times> event) list \<Rightarrow> file_manager \<Rightarrow> file_manager" where
  "run [] s = s"
| "run ((h, e) # tr) s = run tr (step h e s)"

subsection \<open>Predicates used in the statements\<close>

text \<open>Every listing in the Directory Cache was stored from a successful envelope.\<close>

definition cache_ok :: "file_manager \<Rightarrow> bool" where
  "cache_ok s = list_all (\<lambda>kv. success (snd kv)) (cache s)"

text \<open>The \<open>list\<close> call for a path fails: it throws (a timeout included) or the envelope is unsuccessful.\<close>

definition list_fails :: "host \<Rightarrow> string \<Rightarrow> bool" where
  "list_fails h p = (case apiCall h (ListReq p) of Threw msg \<Rightarrow> True | Returned d \<Rightarrow> \<not> success d)"

text \<open>
  The rows a rendering of the file list shows, and what it is for the file list to show
  exactly a listing: its rows are the entries of the listing, each as often as the listing
  has it, in whatever order the view sorts them.
\<close>

fun rendered_rows :: "rendering \<Rightarrow> item list" where
  "rendered_rows Blank = []"
| "rendered_rows EmptyState = []"
| "rendered_rows (RenderedAll rows) = rows"
| "rendered_rows (RenderedDetail rows) = rows"
| "rendered_rows (RenderedVirtual topPadding rows bottomPadding) = rows"

definition renders_exactly :: "rendering \<Rightarrow> item list \<Rightarrow> bool" where
  "renders_exactly r items = (mset (rendered_rows r) = mset items)"

text \<open>
  The message of a failed \<open>list\<close> call: the message of the thrown error, or the \<open>error\<close>
  field of the unsuccessful envelope, from which \<open>navigateToPath\<close> makes an \<open>Error\<close>.
\<close>

definition failure_message :: "host \<Rightarrow> string \<Rightarrow> string" where
  "failure_message h p = (case apiCall h (ListReq p) of Threw msg \<Rightarrow> msg | Returned d \<Rightarrow> error d)"

text \<open>The \<open>list\<close> call for a path succeeds: it returns a successful envelope.\<close>

definition list_succeeds :: "host \<Rightarrow> string \<Rightarrow> bool" where
  "list_succeeds h p = (case apiCall h (ListReq p) of Threw msg \<Rightarrow> False | Returned d \<Rightarrow> success d)"

text \<open>The history ends with the entries \<open>ys\<close> and the index points at the last of them.\<close>

definition history_ends :: "file_manager \<Rightarrow> string list \<Rightarrow> bool" where
  "history_ends s ys = (\<exists>pre. history s = pre @ ys \<and> historyIndex s = int (length pre + length ys) - 1)"

text \<open>
  Case-insensitive comparison in the words of the specification, stated without the
  program's \<open>toLowerCase\<close>: two characters are the same letter when they are equal or one
  is a capital letter (\<open>A\<close> to \<open>Z\<close>, U+00C0 to U+00D6, U+00D8 to U+00DE) and the other its
  small form, 32 code units above; two strings match when they have the same length and
  the same letter at every position.
\<close>

definition is_capital :: "char \<Rightarrow> bool" where
  "is_capital c =
     (let n = (of_char c :: nat)
      in (65 \<le> n \<and> n \<le> 90) \<or> (192 \<le> n \<and> n \<le> 214) \<or> (216 \<le> n \<and> n \<le> 222))"

definition small_of :: "char \<Rightarrow> char \<Rightarrow> bool" where
  "small_of x y = (is_capital x \<and> (of_char y :: nat) = of_char x + 32)"

definition same_letter :: "char \<Rightarrow> char \<Rightarrow> bool" where
  "same_letter x y = (x = y \<or> small_of x y \<or> small_of y x)"

definition ci_equal :: "string \<Rightarrow> string \<Rightarrow> bool" where
  "ci_equal a b = list_all2 same_letter a b"

definition boundary_chars :: "char list" where
  "boundary_chars = [CHR ''_'', CHR ''-'', CHR '' '']"

text \<open>
  The relevance score in the words of the specification: 1000 when the whole name matches
  the query, 800 when a prefix of the name does, 600 when a part of the name that follows
  \<open>_\<close>, \<open>-\<close> or a space does, 400 when any part of the name does, 0 otherwise; every match
  is case-insensitive.
\<close>

definition spec_relevance :: "string \<Rightarrow> string \<Rightarrow> int" where
  "spec_relevance filename query =
     (if ci_equal filename query then 1000
      else if (\<exists>u \<in> set (prefixes filename). ci_equal u query) then 800
      else if (\<exists>w \<in> set (sublists filename).
                 w \<noteq> [] \<and> hd w \<in> set boundary_chars \<and> ci_equal (tl w) query) then 600
      else if (\<exists>w \<in> set (sublists filename). ci_equal w query) then 400
      else 0)"

text \<open>A settled search request counts: it is fulfilled and its envelope is successful.\<close>

definition branch_succeeded :: "api_result \<Rightarrow> bool" where
  "branch_succeeded r = (case r of Threw msg \<Rightarrow> False | Returned v \<Rightarrow> success v)"

text \<open>Every entry of \<open>allItems\<close> is stored under its own path, and no key occurs twice.\<close>

definition keyed_by_path :: "(string, item) js_map \<Rightarrow> bool" where
  "keyed_by_path m = (distinct (map fst m) \<and> list_all (\<lambda>kv. path (snd kv) = fst kv) m)"

text \<open>The items the succeeded branches returned.\<close>

definition succeeded_items :: "api_result list \<Rightarrow> item list" where
  "succeeded_items rs =
     concat (map (\<lambda>r. case r of Threw msg \<Rightarrow> [] | Returned v \<Rightarrow> if success v then data v else []) rs)"



text \<open>An insertion as both caches do it on a miss: \<open>set\<close>, then the size check.\<close>

definition cache_put :: "nat \<Rightarrow> 'k \<times> 'v \<Rightarrow> ('k, 'v) js_map \<Rightarrow> ('k, 'v) js_map" where
  "cache_put cap kv m = evict_first cap (map_set (fst kv) (snd kv) m)"

text \<open>The mean absolute amplitude of block \<open>i\<close>.\<close>

definition block_mean :: "real list \<Rightarrow> nat \<Rightarrow> nat \<Rightarrow> real" where
  "block_mean rawData samples i =
     (let blockSize = length rawData div samples
      in (\<Sum>j\<leftarrow>[0..<blockSize]. \<bar>rawData ! (blockSize * i + j)\<bar>) / real blockSize)"

subsection \<open>Concrete hosts and states for the examples\<close>

text \<open>A comparison by code units, standing in for \<open>localeCompare\<close> in the examples.\<close>

fun codeUnitCompare :: "string \<Rightarrow> string \<Rightarrow> int" where
  "codeUnitCompare [] [] = 0"
| "codeUnitCompare [] (y # ys) = - 1"
| "codeUnitCompare (x # xs) [] = 1"
| "codeUnitCompare (x # xs) (y # ys) =
     (if (of_char x :: nat) < of_char y then - 1
      else if (of_char y :: nat) < of_char x then 1
      else codeUnitCompare xs ys)"

definition driveC :: string where
  "driveC = ''C:'' @ [backslash]"

definition driveC_listing :: envelope where
  "driveC_listing =
     \<lparr>success = True,
      data = [\<lparr>name = ''Windows'', path = driveC @ ''Windows'', is_file = False, fsize = None\<rparr>,
              \<lparr>name = ''pagefile.sys'', path = driveC @ ''pagefile.sys'', is_file = True, fsize = Some 4096\<rparr>,
              \<lparr>name = ''Users'', path = driveC @ ''Users'', is_file = False, fsize = None\<rparr>],
      error = []\<rparr>"

definition listing_host :: host where
  "listing_host = \<lparr>apiCall = (\<lambda>r. Returned driveC_listing), localeCompare = codeUnitCompare\<rparr>"

definition failing_host :: host where
  "failing_host = \<lparr>apiCall = (\<lambda>r. Threw ''timeout''), localeCompare = codeUnitCompare\<rparr>"

text \<open>A backend that answers every request with an unsuccessful envelope.\<close>

definition refusing_host :: host where
  "refusing_host =
     \<lparr>apiCall = (\<lambda>r. Returned \<lparr>success = False, data = [], error = ''Access denied''\<rparr>),
      localeCompare = codeUnitCompare\<rparr>"

definition online :: file_manager where
  "online = setConnectionStatus True constructor"

definition visited_driveC :: file_manager where
  "visited_driveC = run [(listing_host, ConnectionStatus True), (listing_host, Navigate driveC True)] constructor"

definition three_visits :: file_manager where
  "three_visits =
     navigateToPath listing_host ''C:/c'' True
       (navigateToPath listing_host ''C:/b/'' True
         (navigateToPath listing_host ''C:/a'' True online))"

definition named :: "string \<Rightarrow> item" where
  "named n = \<lparr>name = n, path = driveC @ n, is_file = True, fsize = None\<rparr>"

definition log_names :: "string list" where
  "log_names = [''log.txt'', ''catalog.txt'', ''my-log-file.txt'', ''backlog.txt'']"

text \<open>Names in mixed case: an exact match, a prefix, two word boundaries, a part, none.\<close>

definition mixed_case_names :: "string list" where
  "mixed_case_names =
     [''LOG'', ''Log.TXT'', ''My-LOG-File.txt'', ''old log'', ''CATALOG.TXT'', ''notes.txt'']"

definition log_host :: host where
  "log_host =
     \<lparr>apiCall = (\<lambda>r. Returned \<lparr>success = True, data = map named log_names, error = []\<rparr>),
      localeCompare = codeUnitCompare\<rparr>"

text \<open>A backend whose \<open>*log*\<close> search succeeds and whose every other call times out.\<close>

definition flaky_host :: host where
  "flaky_host =
     \<lparr>apiCall = (\<lambda>r. if r = SearchReq driveC ''*log*''
                       then Returned \<lparr>success = True, data = map named log_names, error = []\<rparr>
                       else Threw ''timeout''),
      localeCompare = codeUnitCompare\<rparr>"


definition log_folder :: item where
  "log_folder = \<lparr>name = ''my-log'', path = driveC @ ''my-log'', is_file = False, fsize = None\<rparr>"

text \<open>A backend that answers every request with the file \<open>log.txt\<close> and the folder \<open>my-log\<close>.\<close>

definition mixed_host :: "(string \<Rightarrow> string \<Rightarrow> int) \<Rightarrow> host" where
  "mixed_host cmp =
     \<lparr>apiCall = (\<lambda>r. Returned \<lparr>success = True, data = [named ''log.txt'', log_folder], error = []\<rparr>),
      localeCompare = cmp\<rparr>"

text \<open>Listings of numbered files: \<open>file0.txt\<close>, \<open>file1.txt\<close>, and so on.\<close>

fun decimal :: "nat \<Rightarrow> string" where
  "decimal n =
     (if n < 10 then [char_of (48 + n)] else decimal (n div 10) @ [char_of (48 + n mod 10)])"

declare decimal.simps [simp del]

definition numbered_file :: "nat \<Rightarrow> item" where
  "numbered_file i = named (''file'' @ decimal i @ ''.txt'')"


definition five_thousand_files :: "item list" where
  "five_thousand_files = map numbered_file [0..<5000]"


text \<open>
  A backend with the three entries of \<open>C:\\\<close> and an empty listing for every other
  path; and the state after visiting \<open>C:\\\<close>, then the empty folder \<open>C:\\Users\<close>, then
  losing the connection.
\<close>

definition two_folder_host :: host where
  "two_folder_host =
     \<lparr>apiCall = (\<lambda>r. if r = ListReq driveC then Returned driveC_listing
                       else Returned \<lparr>success = True, data = [], error = []\<rparr>),
      localeCompare = codeUnitCompare\<rparr>"

definition offline_after_visits :: file_manager where
  "offline_after_visits =
     run [(two_folder_host, ConnectionStatus True),
          (two_folder_host, Navigate driveC True),
          (two_folder_host, Navigate (driveC @ ''Users'') True),
          (two_folder_host, ConnectionStatus False)] constructor"

text \<open>A backend whose every listing has 5000 files, and the state after visiting \<open>C:\\\<close>.\<close>

definition big_listing :: envelope where
  "big_listing = \<lparr>success = True, data = five_thousand_files, error = []\<rparr>"

definition big_host :: host where
  "big_host = \<lparr>apiCall = (\<lambda>r. Returned big_listing), localeCompare = codeUnitCompare\<rparr>"

definition visited_big :: file_manager where
  "visited_big = run [(big_host, ConnectionStatus True), (big_host, Navigate driveC True)] constructor"

text \<open>The directories \<open>C:\\dir0\<close>, \<open>C:\\dir1\<close>, and so on.\<close>

definition dir :: "nat \<Rightarrow> string" where
  "dir n = driveC @ ''dir'' @ decimal n"

text \<open>The number a string of decimal digits stands for.\<close>

definition digits_value :: "string \<Rightarrow> nat" where
  "digits_value s = foldl (\<lambda>a c. 10 * a + (of_char c - 48)) 0 s"

text \<open>The state after going online and visiting the first \<open>n\<close> of these directories.\<close>

definition visits :: "nat \<Rightarrow> file_manager" where
  "visits n = run (map (\<lambda>i. (listing_host, Navigate (dir i) True)) [0..<n]) online"

text \<open>Going online, visiting 100 directories, then one turn of the idle prefetch loop.\<close>

definition hundred_visits :: "(host \<times> event) list" where
  "hundred_visits =
     (listing_host, ConnectionStatus True) # map (\<lambda>n. (listing_host, Navigate (dir n) True)) [0..<100]"

section \<open>Properties\<close>

subsection \<open>Path normalisation\<close>

lemma map_slash_idem:
  "map (\<lambda>c. if c = CHR ''/'' then backslash else c) (map (\<lambda>c. if c = CHR ''/'' then backslash else c) p)
   = map (\<lambda>c. if c = CHR ''/'' then backslash else c) p"
  by (simp add: backslash_def)

lemma strip_no_slash:
  "CHR ''/'' \<notin> set p \<Longrightarrow> map (\<lambda>c. if c = CHR ''/'' then backslash else c) p = p"
  by (induction p) auto

lemma no_slash_after_map: "CHR ''/'' \<notin> set (map (\<lambda>c. if c = CHR ''/'' then backslash else c) p)"
  by (auto simp: backslash_def)

lemma no_slash_strip: "CHR ''/'' \<notin> set xs \<Longrightarrow> CHR ''/'' \<notin> set (rev (dropWhile P (rev xs)))"
  by (metis set_dropWhileD set_rev)

lemma normalizePath_idem: "normalizePath (normalizePath p) = normalizePath p"
proof -
  define f where "f = (\<lambda>c. if c = CHR ''/'' then backslash else c)"
  define p2 where "p2 = rev (dropWhile (\<lambda>c. c = backslash) (rev (map f p)))"
  have ns: "CHR ''/'' \<notin> set p2"
    unfolding p2_def f_def by (rule no_slash_strip) (rule no_slash_after_map)
  have fx: "map f p2 = p2" unfolding f_def using ns by (rule strip_no_slash)
  have st: "rev (dropWhile (\<lambda>c. c = backslash) (rev p2)) = p2"
    unfolding p2_def by (simp add: dropWhile_idem)
  have np: "normalizePath p = (if length p2 = 2 \<and> last p2 = CHR '':'' then p2 @ [backslash] else p2)"
    by (simp add: normalizePath_def p2_def f_def Let_def)
  show ?thesis
  proof (cases "length p2 = 2 \<and> last p2 = CHR '':''")
    case True
    then have ne: "p2 \<noteq> []" by auto
    have hd: "hd (rev p2) = CHR '':''" using True ne by (simp add: hd_rev)
    have "rev p2 \<noteq> []" using ne by simp
    then have dw: "dropWhile (\<lambda>c. c = backslash) (rev p2) = rev p2"
      using hd by (cases "rev p2") (auto simp: backslash_def)
    have fb: "f backslash = backslash" by (simp add: f_def backslash_def)
    have "normalizePath (p2 @ [backslash]) = p2 @ [backslash]"
      using True fx dw fb by (simp add: normalizePath_def Let_def f_def[symmetric] backslash_def[symmetric])
    then show ?thesis using True np by simp
  next
    case False
    have ln: "length (dropWhile (\<lambda>c. c = backslash) (rev p2)) = length p2"
      using st by (metis length_rev)
    have "normalizePath p2 = p2"
      using False fx st ln by (simp add: normalizePath_def Let_def f_def[symmetric])
    moreover have "normalizePath p = p2" using False np by auto
    ultimately show ?thesis by simp
  qed
qed

subsection \<open>What each method leaves alone\<close>

lemma showStatus_fields [simp]:
  "isOnline (showStatus m t s) = isOnline s"
  "cache (showStatus m t s) = cache s"
  "prefetchQueue (showStatus m t s) = prefetchQueue s"
  "history (showStatus m t s) = history s"
  "historyIndex (showStatus m t s) = historyIndex s"
  "currentPath (showStatus m t s) = currentPath s"
  "currentView (showStatus m t s) = currentView s"
  "searchQuery (showStatus m t s) = searchQuery s"
  "isSearchMode (showStatus m t s) = isSearchMode s"
  "searchCache (showStatus m t s) = searchCache s"
  "visibleItems (showStatus m t s) = visibleItems s"
  "currentItems (showStatus m t s) = currentItems s"
  "fileList (showStatus m t s) = fileList s"
  "apiCalls (showStatus m t s) = apiCalls s"
  "statusText (showStatus m t s) = Some (m, t)"
  by (simp_all add: showStatus_def)

lemma addToHistory_fields [simp]:
  "isOnline (addToHistory p s) = isOnline s"
  "cache (addToHistory p s) = cache s"
  "prefetchQueue (addToHistory p s) = prefetchQueue s"
  "currentPath (addToHistory p s) = currentPath s"
  "currentView (addToHistory p s) = currentView s"
  "searchQuery (addToHistory p s) = searchQuery s"
  "isSearchMode (addToHistory p s) = isSearchMode s"
  "searchCache (addToHistory p s) = searchCache s"
  "visibleItems (addToHistory p s) = visibleItems s"
  "currentItems (addToHistory p s) = currentItems s"
  "fileList (addToHistory p s) = fileList s"
  "apiCalls (addToHistory p s) = apiCalls s"
  "statusText (addToHistory p s) = statusText s"
  by (simp_all add: addToHistory_def Let_def)

lemma renderFileList_fields [simp]:
  "isOnline (renderFileList h xs s) = isOnline s"
  "cache (renderFileList h xs s) = cache s"
  "prefetchQueue (renderFileList h xs s) = prefetchQueue s"
  "history (renderFileList h xs s) = history s"
  "historyIndex (renderFileList h xs s) = historyIndex s"
  "currentPath (renderFileList h xs s) = currentPath s"
  "currentView (renderFileList h xs s) = currentView s"
  "searchQuery (renderFileList h xs s) = searchQuery s"
  "isSearchMode (renderFileList h xs s) = isSearchMode s"
  "searchCache (renderFileList h xs s) = searchCache s"
  "visibleItems (renderFileList h xs s) = visibleItems s"
  "apiCalls (renderFileList h xs s) = apiCalls s"
  "statusText (renderFileList h xs s) = statusText s"
  "currentItems (renderFileList h xs s) = Some xs"
  by (simp_all add: renderFileList_def renderVirtualItems_def renderAllItems_def Let_def)

lemma queuePrefetch_fields [simp]:
  "isOnline (queuePrefetch xs s) = isOnline s"
  "cache (queuePrefetch xs s) = cache s"
  "history (queuePrefetch xs s) = history s"
  "historyIndex (queuePrefetch xs s) = historyIndex s"
  "currentPath (queuePrefetch xs s) = currentPath s"
  "currentView (queuePrefetch xs s) = currentView s"
  "searchQuery (queuePrefetch xs s) = searchQuery s"
  "isSearchMode (queuePrefetch xs s) = isSearchMode s"
  "searchCache (queuePrefetch xs s) = searchCache s"
  "visibleItems (queuePrefetch xs s) = visibleItems s"
  "currentItems (queuePrefetch xs s) = currentItems s"
  "fileList (queuePrefetch xs s) = fileList s"
  "apiCalls (queuePrefetch xs s) = apiCalls s"
  "statusText (queuePrefetch xs s) = statusText s"
  by (simp_all add: queuePrefetch_def Let_def)

lemma fileList_renderFileList_cong:
  "currentView s = currentView t \<Longrightarrow> visibleItems s = visibleItems t \<Longrightarrow>
   fileList (renderFileList h xs s) = fileList (renderFileList h xs t)"
  by (simp add: renderFileList_def renderVirtualItems_def renderAllItems_def Let_def)

lemma navigate_finish_fields [simp]:
  "isOnline (navigate_finish h p a d s) = isOnline s"
  "cache (navigate_finish h p a d s) = cache s"
  "currentView (navigate_finish h p a d s) = currentView s"
  "searchQuery (navigate_finish h p a d s) = searchQuery s"
  "isSearchMode (navigate_finish h p a d s) = isSearchMode s"
  "searchCache (navigate_finish h p a d s) = searchCache s"
  "visibleItems (navigate_finish h p a d s) = visibleItems s"
  "apiCalls (navigate_finish h p a d s) = apiCalls s"
  by (simp_all add: navigate_finish_def Let_def)

lemma navigate_finish_success:
  "success d \<Longrightarrow>
     currentPath (navigate_finish h p a d s) = Some p \<and>
     currentItems (navigate_finish h p a d s) = Some (data d) \<and>
     fileList (navigate_finish h p a d s) = fileList (renderFileList h (data d) s) \<and>
     statusText (navigate_finish h p a d s) = Some (MsgItemCount (length (data d)), StSuccess) \<and>
     history (navigate_finish h p a d s) = (if a then history (addToHistory p s) else history s) \<and>
     historyIndex (navigate_finish h p a d s) = (if a then historyIndex (addToHistory p s) else historyIndex s)"
  by (auto simp add: navigate_finish_def Let_def addToHistory_def intro!: fileList_renderFileList_cong)

lemma navigate_finish_failure:
  "\<not> success d \<Longrightarrow> navigate_finish h p a d s = showStatus (MsgError (error d)) StError s"
  by (simp add: navigate_finish_def)

lemma navigateToPath_fields [simp]:
  "isOnline (navigateToPath h p a s) = isOnline s"
  "currentView (navigateToPath h p a s) = currentView s"
  "searchQuery (navigateToPath h p a s) = searchQuery s"
  "isSearchMode (navigateToPath h p a s) = isSearchMode s"
  "searchCache (navigateToPath h p a s) = searchCache s"
  "visibleItems (navigateToPath h p a s) = visibleItems s"
  by (simp_all add: navigateToPath_def Let_def split: option.splits api_result.splits)

lemma navigateToPath_rejected:
  "p = [] \<or> \<not> isOnline s \<Longrightarrow> navigateToPath h p a s = s"
  by (auto simp: navigateToPath_def)

lemma navigateToPath_hit:
  "p \<noteq> [] \<Longrightarrow> isOnline s \<Longrightarrow> map_get (normalizePath p) (cache s) = Some d \<Longrightarrow>
   navigateToPath h p a s =
     navigate_finish h (normalizePath p) a d (showStatus (MsgLoadingPath (normalizePath p)) StLoading s)"
  by (simp add: navigateToPath_def Let_def)

lemma navigateToPath_no_history:
  "history (navigateToPath h p False s) = history s \<and>
   historyIndex (navigateToPath h p False s) = historyIndex s"
  by (simp add: navigateToPath_def navigate_finish_def Let_def split: option.splits api_result.splits)

subsection \<open>The cache only holds successful listings\<close>

lemma list_all_map_set: "list_all P m \<Longrightarrow> P (k, v) \<Longrightarrow> list_all P (map_set k v m)"
  by (induction m) auto

lemma list_all_evict_first: "list_all P m \<Longrightarrow> list_all P (evict_first cap m)"
  by (auto simp: evict_first_def map_delete_def list_all_iff split: list.splits)

lemma cache_ok_navigateToPath: "cache_ok s \<Longrightarrow> cache_ok (navigateToPath h p a s)"
  by (auto simp: cache_ok_def navigateToPath_def Let_def list_all_map_set list_all_evict_first
           split: option.splits api_result.splits)

lemma cache_ok_prefetchDirectory: "cache_ok s \<Longrightarrow> cache_ok (prefetchDirectory h p s)"
  by (auto simp: cache_ok_def prefetchDirectory_def Let_def list_all_map_set split: api_result.splits)

lemma cache_ok_step: "cache_ok s \<Longrightarrow> cache_ok (step h e s)"
proof (cases e)
  case (ConnectionStatus b)
  assume "cache_ok s"
  then show ?thesis using ConnectionStatus
    by (simp add: cache_ok_def setConnectionStatus_def)
next
  case (Navigate p a)
  assume "cache_ok s"
  then show ?thesis using Navigate by (simp add: cache_ok_navigateToPath)
next
  case Back
  assume "cache_ok s"
  then have "cache_ok (s\<lparr>historyIndex := historyIndex s - 1\<rparr>)" by (simp add: cache_ok_def)
  then show ?thesis using Back \<open>cache_ok s\<close>
    by (simp add: goBack_def Let_def cache_ok_navigateToPath split: option.splits)
next
  case Forward
  assume "cache_ok s"
  then have "cache_ok (s\<lparr>historyIndex := historyIndex s + 1\<rparr>)" by (simp add: cache_ok_def)
  then show ?thesis using Forward \<open>cache_ok s\<close>
    by (simp add: goForward_def Let_def cache_ok_navigateToPath split: option.splits)
next
  case Refresh
  have "cache_ok (s\<lparr>cache := []\<rparr>)" by (simp add: cache_ok_def)
  then show ?thesis using Refresh
    by (simp add: refreshTree_def Let_def cache_ok_navigateToPath split: option.splits)
next
  case (Search q)
  assume ok: "cache_ok s"
  then have "cache_ok (s\<lparr>isSearchMode := False, searchCache := []\<rparr>)" by (simp add: cache_ok_def)
  then show ?thesis using Search ok
    by (simp add: performFastSearch_def Let_def cache_ok_navigateToPath cache_ok_def[of "showStatus _ _ _"]
                  cache_ok_def[of "_\<lparr>isSearchMode := _, searchQuery := _\<rparr>"]
                  cache_ok_def[of s] cache_ok_def[of "renderFileList _ _ _"]
             split: option.splits)
next
  case Prefetch
  assume ok: "cache_ok s"
  then have "\<And>q. cache_ok (s\<lparr>prefetchQueue := q\<rparr>)" by (simp add: cache_ok_def)
  then show ?thesis using Prefetch ok
    by (simp add: prefetchWork_def cache_ok_prefetchDirectory split: list.splits)
next
  case (Scroll y)
  assume "cache_ok s"
  then show ?thesis using Scroll
    by (simp add: cache_ok_def handleVirtualScroll_def renderVirtualItems_def Let_def split: option.splits)
next
  case (Resize y)
  assume "cache_ok s"
  then show ?thesis using Resize
    by (simp add: cache_ok_def handleResize_def split: option.splits)
next
  case (View v)
  assume "cache_ok s"
  then show ?thesis using View
    by (simp add: cache_ok_def setView_def Let_def split: option.splits)
qed

lemma cache_ok_run: "cache_ok s \<Longrightarrow> cache_ok (run tr s)"
  by (induction tr arbitrary: s) (auto simp: cache_ok_step)

lemma cache_ok_constructor: "cache_ok constructor"
  by (simp add: cache_ok_def constructor_def)

lemma cache_ok_get: "cache_ok s \<Longrightarrow> map_get k (cache s) = Some d \<Longrightarrow> success d"
  by (auto simp: cache_ok_def map_get_def list_all_iff dest!: map_of_SomeD)

subsection \<open>The two branches of a search\<close>

lemma performFastSearch_miss:
  assumes "trim q \<noteq> []" "map_get (searchCacheKey s q) (searchCache s) = None"
  shows "performFastSearch h q s =
     (let fr = rankResults q (mergeResults (map (apiCall h) (searchRequests s q)))
      in showStatus (MsgFound (length fr)) StSuccess
           (renderFileList h fr
              (s\<lparr>isSearchMode := True, searchQuery := q,
                 statusText := Some (MsgSearching q, StLoading),
                 apiCalls := apiCalls s @ searchRequests s q,
                 searchCache := evict_first 50 (map_set (searchCacheKey s q) fr (searchCache s))\<rparr>)))"
  using assms
  by (simp add: performFastSearch_def Let_def showStatus_def searchRequests_def searchCacheKey_def)

lemma performFastSearch_blank:
  assumes "trim q = []"
  shows "performFastSearch h q s =
     (case currentPath s of
        None \<Rightarrow> s\<lparr>isSearchMode := False, searchCache := []\<rparr>
      | Some p \<Rightarrow> navigateToPath h p False (s\<lparr>isSearchMode := False, searchCache := []\<rparr>))"
  using assms
  by (simp add: performFastSearch_def Let_def navigateToPath_rejected split: option.splits)

subsection \<open>Cache capacity\<close>

lemma length_map_set_new: "\<not> map_has k m \<Longrightarrow> length (map_set k v m) = Suc (length m)"
  by (induction m) (auto simp: map_has_def)

lemma length_map_set_le: "length (map_set k v m) \<le> Suc (length m)"
  by (induction m) auto

lemma length_map_set_old: "map_has k m \<Longrightarrow> length (map_set k v m) = length m"
  by (induction m) (auto simp: map_has_def)

text \<open>
  Claim C1. The claim says that the Directory Cache never holds more than 100 entries,
  whatever navigations, searches and prefetch completions happen. \<open>navigateToPath\<close>
  checks the size after its insertion; \<open>prefetchDirectory\<close> inserts without the check.
  So when the cache holds 100 listings and the prefetch of a path that is not cached
  succeeds, the cache holds 101.
\<close>

theorem C1_prefetch_exceeds_capacity:
  assumes "length (cache s) = 100" "\<not> map_has p (cache s)" "list_succeeds h p"
  shows "length (cache (prefetchDirectory h p s)) = 101"
proof -
  obtain d where d: "apiCall h (ListReq p) = Returned d" "success d"
    using assms(3) by (auto simp: list_succeeds_def split: api_result.splits)
  have "cache (prefetchDirectory h p s) = map_set p d (cache s)"
    using d by (simp add: prefetchDirectory_def Let_def)
  then show ?thesis using assms(1,2) by (simp add: length_map_set_new)
qed

text \<open>
  The state of the theorem is reached by use: after going online and visiting the 100
  directories \<open>C:\\dir0\<close> to \<open>C:\\dir99\<close> (each listed with the folder \<open>Windows\<close> in
  it) the cache holds their 100 listings and the prefetch queue starts with
  \<open>C:\\Windows\<close>; one turn of the idle loop then makes it 101.
\<close>

lemma map_set_new: "\<not> map_has k m \<Longrightarrow> map_set k v m = m @ [(k, v)]"
  by (induction m) (auto simp: map_has_def)

lemma map_has_iff: "map_has k m = (k \<in> fst ` set m)"
  by (simp add: map_has_def map_of_eq_None_iff)

lemma digits_value_decimal: "digits_value (decimal n) = n"
proof (induction n rule: decimal.induct)
  case (1 n)
  show ?case
  proof (cases "n < 10")
    case True
    then show ?thesis by (subst decimal.simps) (simp add: digits_value_def)
  next
    case False
    have m: "n mod 10 < 10" by simp
    have "digits_value (decimal n) = 10 * digits_value (decimal (n div 10)) + n mod 10"
      using False by (subst decimal.simps) (simp add: digits_value_def)
    then show ?thesis using 1 False by simp
  qed
qed

lemma decimal_inj: "decimal m = decimal n \<Longrightarrow> m = n"
  by (metis digits_value_decimal)

lemma decimal_digits: "c \<in> set (decimal n) \<Longrightarrow> 48 \<le> (of_char c :: nat) \<and> (of_char c :: nat) \<le> 57"
proof (induction n rule: decimal.induct)
  case (1 n)
  show ?case
  proof (cases "n < 10")
    case True
    then show ?thesis using 1(2) by (subst (asm) decimal.simps) auto
  next
    case False
    have "n mod 10 < 10" by simp
    then have "48 + n mod 10 < 256" by simp
    then show ?thesis using 1 False by (subst (asm) (2) decimal.simps) (auto simp: )
  qed
qed

lemma decimal_nonempty: "decimal n \<noteq> []"
  by (subst decimal.simps) simp

lemma normalizePath_fixed:
  assumes "CHR ''/'' \<notin> set p" "p \<noteq> []" "last p \<noteq> backslash" "length p \<noteq> 2"
  shows "normalizePath p = p"
proof -
  have a: "map (\<lambda>c. if c = CHR ''/'' then backslash else c) p = p"
    using assms(1) by (induction p) auto
  have "rev p \<noteq> []" "hd (rev p) \<noteq> backslash" using assms(2,3) by (simp_all add: hd_rev)
  then have b: "dropWhile (\<lambda>c. c = backslash) (rev p) = rev p" by (cases "rev p") auto
  show ?thesis using assms(4) by (simp add: normalizePath_def a b Let_def)
qed

lemma normalizePath_dir: "normalizePath (dir n) = dir n"
proof (rule normalizePath_fixed)
  have d: "c \<noteq> CHR ''/'' \<and> c \<noteq> backslash" if "c \<in> set (decimal n)" for c
    using decimal_digits[OF that] by (auto simp: backslash_def)
  show "CHR ''/'' \<notin> set (dir n)" using d by (auto simp: dir_def driveC_def backslash_def)
  show "dir n \<noteq> []" by (simp add: dir_def driveC_def)
  have "last (dir n) = last (decimal n)" using decimal_nonempty by (simp add: dir_def)
  moreover have "last (decimal n) \<in> set (decimal n)" using decimal_nonempty by simp
  ultimately show "last (dir n) \<noteq> backslash" using d by metis
  show "length (dir n) \<noteq> 2" by (simp add: dir_def driveC_def)
qed

lemma dir_inj: "dir m = dir n \<Longrightarrow> m = n"
  by (simp add: dir_def decimal_inj)

lemma run_append: "run (xs @ ys) s = run ys (run xs s)"
  by (induction xs arbitrary: s) auto

lemma navigateToPath_fresh:
  assumes "isOnline s" "p \<noteq> []" "normalizePath p = p" "\<not> map_has p (cache s)"
      and "apiCall h (ListReq p) = Returned d" "success d" "length (cache s) < 100"
  shows "cache (navigateToPath h p a s) = cache s @ [(p, d)] \<and> isOnline (navigateToPath h p a s) \<and>
         prefetchQueue (navigateToPath h p a s) =
           prefetchQueue s @ map path (filter (\<lambda>f. \<not> map_has (path f) (cache s @ [(p, d)]))
                                        (take 5 (filter (\<lambda>i. \<not> is_file i) (data d))))"
proof -
  have miss: "map_get p (cache s) = None" using assms(4) by (simp add: map_has_def map_get_def)
  have put: "evict_first 100 (map_set p d (cache s)) = cache s @ [(p, d)]"
    using assms(4,7) by (simp add: map_set_new evict_first_def)
  show ?thesis
    using assms(1,2,3,5,6) miss put
    by (simp add: navigateToPath_def navigate_finish_def queuePrefetch_def showStatus_def Let_def)
qed

lemma windows_not_dir: "driveC @ ''Windows'' \<noteq> dir i"
  by (simp add: dir_def)

lemma visits_invariant:
  "n \<le> 100 \<Longrightarrow>
     cache (visits n) = map (\<lambda>i. (dir i, driveC_listing)) [0..<n] \<and> isOnline (visits n) \<and>
     (0 < n \<longrightarrow> (\<exists>rest. prefetchQueue (visits n) = (driveC @ ''Windows'') # rest))"
proof (induction n)
  case 0
  then show ?case by (simp add: visits_def online_def setConnectionStatus_def constructor_def)
next
  case (Suc n)
  let ?s = "visits n"
  have IH: "cache ?s = map (\<lambda>i. (dir i, driveC_listing)) [0..<n]" "isOnline ?s"
       "0 < n \<longrightarrow> (\<exists>rest. prefetchQueue ?s = (driveC @ ''Windows'') # rest)"
    using Suc by simp_all
  have step: "visits (Suc n) = navigateToPath listing_host (dir n) True ?s"
    by (simp add: visits_def run_append)
  have fresh: "\<not> map_has (dir n) (cache ?s)"
    by (auto simp: IH(1) map_has_iff dest: dir_inj)
  have nowin: "\<not> map_has (driveC @ ''Windows'') (cache ?s @ [(dir n, driveC_listing)])"
    by (auto simp: IH(1) map_has_iff windows_not_dir)
  have q0: "n = 0 \<Longrightarrow> prefetchQueue ?s = []"
    by (simp add: visits_def online_def setConnectionStatus_def constructor_def showStatus_def)
  have p1: "dir n \<noteq> []" by (simp add: dir_def driveC_def)
  have p2: "apiCall listing_host (ListReq (dir n)) = Returned driveC_listing"
    by (simp add: listing_host_def)
  have p3: "success driveC_listing" by (simp add: driveC_listing_def)
  have p4: "length (cache ?s) < 100" using Suc.prems by (simp add: IH(1))
  note nav = navigateToPath_fresh[of ?s "dir n" listing_host driveC_listing True]
  have res: "cache (visits (Suc n)) = cache ?s @ [(dir n, driveC_listing)] \<and> isOnline (visits (Suc n)) \<and>
         prefetchQueue (visits (Suc n)) =
           prefetchQueue ?s @ map path (filter (\<lambda>f. \<not> map_has (path f) (cache ?s @ [(dir n, driveC_listing)]))
                                        (take 5 (filter (\<lambda>i. \<not> is_file i) (data driveC_listing))))"
    unfolding step by (rule nav[OF IH(2) p1 normalizePath_dir fresh p2 p3 p4])
  have "\<exists>rest. prefetchQueue (visits (Suc n)) = (driveC @ ''Windows'') # rest"
  proof (cases "n = 0")
    case True
    then show ?thesis using res q0 nowin by (simp add: driveC_listing_def)
  next
    case False
    then obtain rest where "prefetchQueue ?s = (driveC @ ''Windows'') # rest" using IH(3) by auto
    then show ?thesis using res by simp
  qed
  then show ?case using res IH(1) by simp
qed

lemma run_hundred_visits: "run hundred_visits constructor = visits 100"
  by (simp add: hundred_visits_def visits_def online_def)

theorem C1_prefetch_exceeds_capacity_witness:
  "length (cache (run hundred_visits constructor)) = 100 \<and>
   \<not> map_has (driveC @ ''Windows'') (cache (run hundred_visits constructor)) \<and>
   list_succeeds listing_host (driveC @ ''Windows'') \<and>
   length (cache (run (hundred_visits @ [(listing_host, Prefetch)]) constructor)) = 101"
proof -
  let ?s = "run hundred_visits constructor"
  have inv: "cache ?s = map (\<lambda>i. (dir i, driveC_listing)) [0..<100]"
    and q: "\<exists>rest. prefetchQueue ?s = (driveC @ ''Windows'') # rest"
    using visits_invariant[of 100] by (simp_all add: run_hundred_visits)
  obtain rest where rest: "prefetchQueue ?s = (driveC @ ''Windows'') # rest" using q by blast
  have a: "length (cache ?s) = 100" by (simp add: inv)
  have b: "\<not> map_has (driveC @ ''Windows'') (cache ?s)"
    by (auto simp: inv map_has_iff windows_not_dir)
  have c: "list_succeeds listing_host (driveC @ ''Windows'')"
    by (simp add: list_succeeds_def listing_host_def driveC_listing_def)
  have a': "length (cache (?s\<lparr>prefetchQueue := rest\<rparr>)) = 100" using a by simp
  have b': "\<not> map_has (driveC @ ''Windows'') (cache (?s\<lparr>prefetchQueue := rest\<rparr>))" using b by simp
  have "run (hundred_visits @ [(listing_host, Prefetch)]) constructor
        = prefetchDirectory listing_host (driveC @ ''Windows'') (?s\<lparr>prefetchQueue := rest\<rparr>)"
    by (simp add: run_append prefetchWork_def rest)
  then show ?thesis
    using C1_prefetch_exceeds_capacity[OF a' b' c] a b c by simp
qed

text \<open>What does hold: an insertion followed by the size check keeps a cache within its capacity.\<close>

lemma length_map_delete_hd:
  "m \<noteq> [] \<Longrightarrow> length (map_delete (fst (hd m)) m) < length m"
  by (cases m) (auto simp: map_delete_def intro: le_imp_less_Suc length_filter_le)

lemma evict_first_bound:
  assumes "length m \<le> cap"
  shows "length (evict_first cap (map_set k v m)) \<le> cap"
proof (cases "length (map_set k v m) > cap")
  case True
  let ?m = "map_set k v m"
  have ne: "?m \<noteq> []" using True by auto
  then obtain kv rest where m: "?m = kv # rest" by (cases ?m) auto
  have "length (map_delete (fst (hd ?m)) ?m) < length ?m" using ne by (rule length_map_delete_hd)
  moreover have "length ?m \<le> Suc cap" using assms length_map_set_le[of k v m] by simp
  moreover have "evict_first cap ?m = map_delete (fst (hd ?m)) ?m"
    using True m by (simp add: evict_first_def map_keys_def)
  ultimately show ?thesis by simp
next
  case False
  then show ?thesis by (simp add: evict_first_def)
qed

lemma cache_bounded_navigateToPath:
  "length (cache s) \<le> 100 \<Longrightarrow> length (cache (navigateToPath h p a s)) \<le> 100"
  by (auto simp: navigateToPath_def Let_def evict_first_bound split: option.splits api_result.splits)

lemma searchCache_bounded_performFastSearch:
  "length (searchCache s) \<le> 50 \<Longrightarrow> length (searchCache (performFastSearch h q s)) \<le> 50"
  by (auto simp: performFastSearch_def Let_def evict_first_bound split: option.splits)

lemma searchCache_bounded_step:
  "length (searchCache s) \<le> 50 \<Longrightarrow> length (searchCache (step h e s)) \<le> 50"
  by (cases e)
     (auto simp: searchCache_bounded_performFastSearch setConnectionStatus_def goBack_def goForward_def
                 refreshTree_def prefetchWork_def prefetchDirectory_def handleVirtualScroll_def
                 renderVirtualItems_def handleResize_def setView_def Let_def
           split: option.splits list.splits api_result.splits)

lemma searchCache_bounded_run:
  "length (searchCache s) \<le> 50 \<Longrightarrow> length (searchCache (run tr s)) \<le> 50"
  by (induction tr arbitrary: s) (auto simp: searchCache_bounded_step)

lemma searchCache_never_exceeds_50: "length (searchCache (run tr constructor)) \<le> 50"
  by (rule searchCache_bounded_run) (simp add: constructor_def)

text \<open>
  The eviction is by insertion order: when a full cache with distinct keys takes a new key,
  the entry that goes is the earliest inserted one; so after any number of insertions of
  distinct keys a cache of capacity \<open>cap\<close> holds exactly the last \<open>cap\<close> of them, in order.
\<close>

lemma evict_first_oldest:
  assumes "distinct (map fst m)" "length m = cap" "0 < cap" "\<not> map_has k m"
  shows "evict_first cap (map_set k v m) = tl m @ [(k, v)]"
proof -
  obtain k0 v0 rest where m: "m = (k0, v0) # rest" using assms(2,3) by (cases m) auto
  have k0: "k0 \<notin> fst ` set rest" using assms(1) m by auto
  have kk: "k \<noteq> k0" using assms(4) m by (auto simp: map_has_iff)
  have "filter (\<lambda>kv. fst kv \<noteq> k0) rest = rest"
    using k0 by (intro filter_True) force
  then have del: "map_delete k0 (m @ [(k, v)]) = rest @ [(k, v)]"
    using kk by (simp add: map_delete_def m)
  have "evict_first cap (m @ [(k, v)]) = map_delete k0 (m @ [(k, v)])"
    using assms(2) by (simp add: evict_first_def map_keys_def m)
  then show ?thesis
    unfolding map_set_new[OF assms(4)] using del by (simp add: m)
qed

lemma capped_insertions_keep_latest:
  assumes "0 < cap"
  shows "distinct (map fst kvs) \<Longrightarrow> foldl (\<lambda>m kv. cache_put cap kv m) [] kvs = drop (length kvs - cap) kvs"
proof (induction kvs rule: rev_induct)
  case Nil
  then show ?case by simp
next
  case (snoc kv xs)
  obtain k v where kv: "kv = (k, v)" by (cases kv)
  let ?m = "drop (length xs - cap) xs"
  have d: "distinct (map fst xs)" and fresh: "k \<notin> fst ` set xs" using snoc.prems kv by auto
  have IH: "foldl (\<lambda>m kv. cache_put cap kv m) [] xs = ?m" using snoc.IH d by simp
  have nh: "\<not> map_has k ?m" using fresh by (auto simp: map_has_iff dest: in_set_dropD)
  have dm: "distinct (map fst ?m)" using d by (simp add: drop_map[symmetric] distinct_drop)
  show ?case
  proof (cases "length xs < cap")
    case True
    then have "cache_put cap kv ?m = xs @ [kv]"
      using nh kv by (simp add: cache_put_def map_set_new evict_first_def)
    then show ?thesis using IH True by simp
  next
    case False
    then have len: "length ?m = cap" by simp
    have "cache_put cap kv ?m = tl ?m @ [kv]"
      using evict_first_oldest[OF dm len assms nh, of v] kv by (simp add: cache_put_def)
    moreover have "tl ?m = drop (Suc (length xs) - cap) xs"
      using False by (simp add: tl_drop Suc_diff_le drop_Suc)
    ultimately show ?thesis using IH False assms by simp
  qed
qed

subsection \<open>History\<close>

lemma navigateToPath_succeeds:
  assumes "isOnline s" "cache_ok s" "p \<noteq> []" "list_succeeds h (normalizePath p)"
  shows "currentPath (navigateToPath h p a s) = Some (normalizePath p) \<and>
         history (navigateToPath h p a s) = (if a then history (addToHistory (normalizePath p) s) else history s) \<and>
         historyIndex (navigateToPath h p a s) =
           (if a then historyIndex (addToHistory (normalizePath p) s) else historyIndex s)"
proof (cases "map_get (normalizePath p) (cache s)")
  case (Some d)
  have ok: "success d" using assms(2) Some by (rule cache_ok_get)
  have eq: "navigateToPath h p a s =
       navigate_finish h (normalizePath p) a d (showStatus (MsgLoadingPath (normalizePath p)) StLoading s)"
    using assms(3,1) Some by (rule navigateToPath_hit)
  show ?thesis
    using navigate_finish_success[OF ok, of h "normalizePath p" a
               "showStatus (MsgLoadingPath (normalizePath p)) StLoading s"] eq
    by (simp add: addToHistory_def showStatus_def Let_def)
next
  case None
  obtain d where d: "apiCall h (ListReq (normalizePath p)) = Returned d" "success d"
    using assms(4) by (auto simp: list_succeeds_def split: api_result.splits)
  let ?s2 = "(showStatus (MsgLoadingPath (normalizePath p)) StLoading s)
               \<lparr>apiCalls := apiCalls s @ [ListReq (normalizePath p)],
                cache := evict_first 100 (map_set (normalizePath p) d (cache s))\<rparr>"
  have eq: "navigateToPath h p a s = navigate_finish h (normalizePath p) a d ?s2"
    using assms(1,3) None d by (simp add: navigateToPath_def Let_def showStatus_def)
  show ?thesis
    using navigate_finish_success[OF d(2), of h "normalizePath p" a ?s2] eq
    by (simp add: addToHistory_def showStatus_def Let_def)
qed

lemma addToHistory_push:
  assumes "0 \<le> historyIndex s" "historyIndex s < int (length (history s))"
      and "take (nat (historyIndex s + 1)) (history s) = pre @ ys"
      and "ys \<noteq> []" "last ys \<noteq> c" "length ys < 50"
  shows "history_ends (addToHistory c s) (ys @ [c])"
proof -
  let ?i = "historyIndex s"
  have len: "length (pre @ ys) = nat (?i + 1)"
  proof -
    have "length (take (nat (?i + 1)) (history s)) = nat (?i + 1)"
      using assms(1,2) by simp
    then show ?thesis by (simp only: assms(3))
  qed
  have ne: "pre @ ys \<noteq> []" using assms(4) by simp
  have "last ys = last (pre @ ys)" using assms(4) by simp
  also have "\<dots> = (pre @ ys) ! (length (pre @ ys) - 1)" using ne by (rule last_conv_nth)
  also have "length (pre @ ys) - 1 = nat ?i" using len assms(1) by simp
  also have "(pre @ ys) ! nat ?i = take (nat (?i + 1)) (history s) ! nat ?i"
    by (simp only: assms(3))
  also have "\<dots> = history s ! nat ?i" using assms(1,2) by simp
  finally have cur: "history s ! nat ?i = last ys" by simp
  have nd: "history_at (history s) ?i \<noteq> Some c"
    using assms(1,2,5) cur by (simp add: history_at_def)
  have sp: "splice_from (?i + 1) (history s) = pre @ ys"
    using assms(1,3) by (simp add: splice_from_def)
  show ?thesis
  proof (cases "length (pre @ ys @ [c]) > 50")
    case True
    then have "pre \<noteq> []" using assms(6) by auto
    then obtain x pre' where pre: "pre = x # pre'" by (cases pre) auto
    have "addToHistory c s = s\<lparr>history := pre' @ ys @ [c], historyIndex := int (length (pre @ ys @ [c])) - 1 - 1\<rparr>"
      using nd sp True pre by (simp add: addToHistory_def Let_def)
    then show ?thesis using pre by (auto simp: history_ends_def)
  next
    case False
    have "addToHistory c s = s\<lparr>history := pre @ ys @ [c], historyIndex := int (length (pre @ ys @ [c])) - 1\<rparr>"
      using nd sp False by (simp add: addToHistory_def Let_def)
    then show ?thesis by (auto simp: history_ends_def)
  qed
qed

lemma addToHistory_current:
  "0 \<le> historyIndex (addToHistory p s) \<and>
   historyIndex (addToHistory p s) < int (length (history (addToHistory p s))) \<and>
   history (addToHistory p s) ! nat (historyIndex (addToHistory p s)) = p"
proof (cases "history_at (history s) (historyIndex s) = Some p")
  case True
  then show ?thesis by (auto simp: addToHistory_def history_at_def split: if_splits)
next
  case False
  let ?h2 = "splice_from (historyIndex s + 1) (history s) @ [p]"
  show ?thesis
  proof (cases "length ?h2 > 50")
    case True
    then obtain x xs where h2: "?h2 = x # xs" by (cases ?h2) auto
    from True have "50 < length (x # xs)" by (simp only: h2)
    then have "xs \<noteq> []" by auto
    have lastxs: "last xs = p" using h2 \<open>xs \<noteq> []\<close> by (metis last.simps last_snoc)
    have "addToHistory p s = s\<lparr>history := xs, historyIndex := int (length ?h2) - 1 - 1\<rparr>"
      using False True h2 by (simp add: addToHistory_def Let_def del: length_append)
    moreover have "int (length ?h2) - 1 - 1 = int (length xs - 1)" using h2 \<open>xs \<noteq> []\<close>
      by (cases xs) (simp_all del: length_append)
    ultimately show ?thesis using \<open>xs \<noteq> []\<close> lastxs by (simp add: last_conv_nth)
  next
    case F2: False
    have "addToHistory p s = s\<lparr>history := ?h2, historyIndex := int (length ?h2) - 1\<rparr>"
      using False F2 by (simp add: addToHistory_def Let_def)
    then show ?thesis by (simp add: nth_append)
  qed
qed

lemma normalizePath_Nil: "normalizePath [] = []"
  by (simp add: normalizePath_def)

lemma history_ends_cong:
  "history s = history t \<Longrightarrow> historyIndex s = historyIndex t \<Longrightarrow> history_ends s ys = history_ends t ys"
  by (simp add: history_ends_def)

lemma cache_ok_historyIndex [simp]: "cache_ok (s\<lparr>historyIndex := i\<rparr>) = cache_ok s"
  by (simp add: cache_ok_def)

lemma goBack_moves:
  assumes "isOnline s" "cache_ok s"
      and "history s = pre @ x # post" "historyIndex s = int (length pre) + 1"
      and "x \<noteq> []" "normalizePath x = x" "list_succeeds h x"
  shows "currentPath (goBack h s) = Some x \<and> history (goBack h s) = history s \<and>
         historyIndex (goBack h s) = int (length pre) \<and> isOnline (goBack h s) \<and> cache_ok (goBack h s)"
proof -
  let ?s1 = "s\<lparr>historyIndex := int (length pre)\<rparr>"
  have at: "history_at (history ?s1) (historyIndex ?s1) = Some x"
    using assms(3) by (simp add: history_at_def)
  have eq: "goBack h s = navigateToPath h x False ?s1"
    using assms(4) at by (simp add: goBack_def Let_def)
  have "isOnline ?s1" "cache_ok ?s1" using assms(1,2) by simp_all
  then show ?thesis
    using navigateToPath_succeeds[of ?s1 x h False] assms(5,6,7) eq
    by (simp add: cache_ok_navigateToPath)
qed

lemma goForward_moves:
  assumes "isOnline s" "cache_ok s"
      and "history s = pre @ x # post" "historyIndex s = int (length pre) - 1"
      and "x \<noteq> []" "normalizePath x = x" "list_succeeds h x"
  shows "currentPath (goForward h s) = Some x \<and> history (goForward h s) = history s \<and>
         historyIndex (goForward h s) = int (length pre) \<and> isOnline (goForward h s) \<and> cache_ok (goForward h s)"
proof -
  let ?s1 = "s\<lparr>historyIndex := int (length pre)\<rparr>"
  have at: "history_at (history ?s1) (historyIndex ?s1) = Some x"
    using assms(3) by (simp add: history_at_def)
  have eq: "goForward h s = navigateToPath h x False ?s1"
    using assms(3,4) at by (simp add: goForward_def Let_def)
  have "isOnline ?s1" "cache_ok ?s1" using assms(1,2) by simp_all
  then show ?thesis
    using navigateToPath_succeeds[of ?s1 x h False] assms(5,6,7) eq
    by (simp add: cache_ok_navigateToPath)
qed

lemma three_navigations:
  assumes on: "isOnline s" and ok: "cache_ok s"
      and ne: "normalizePath pa \<noteq> []" "normalizePath pb \<noteq> []" "normalizePath pc \<noteq> []"
      and df: "normalizePath pa \<noteq> normalizePath pb" "normalizePath pb \<noteq> normalizePath pc"
      and ls: "list_succeeds h (normalizePath pa)" "list_succeeds h (normalizePath pb)"
              "list_succeeds h (normalizePath pc)"
  defines "s3 \<equiv> navigateToPath h pc True (navigateToPath h pb True (navigateToPath h pa True s))"
  shows "isOnline s3 \<and> cache_ok s3 \<and> currentPath s3 = Some (normalizePath pc) \<and>
         history_ends s3 [normalizePath pa, normalizePath pb, normalizePath pc]"
proof -
  let ?a = "normalizePath pa" and ?b = "normalizePath pb" and ?c = "normalizePath pc"
  let ?s1 = "navigateToPath h pa True s"
  let ?s2 = "navigateToPath h pb True ?s1"
  have pne: "pa \<noteq> []" "pb \<noteq> []" "pc \<noteq> []" using ne normalizePath_Nil by auto
  have on1: "isOnline ?s1" and ok1: "cache_ok ?s1" using on ok by (simp_all add: cache_ok_navigateToPath)
  have on2: "isOnline ?s2" and ok2: "cache_ok ?s2" using on1 ok1 by (simp_all add: cache_ok_navigateToPath)
  have h1: "history ?s1 = history (addToHistory ?a s)" "historyIndex ?s1 = historyIndex (addToHistory ?a s)"
    using navigateToPath_succeeds[OF on ok pne(1) ls(1), of True] by simp_all
  have cur1: "0 \<le> historyIndex ?s1" "historyIndex ?s1 < int (length (history ?s1))"
             "history ?s1 ! nat (historyIndex ?s1) = ?a"
    using addToHistory_current[of ?a s] h1 by simp_all
  have tk1: "take (nat (historyIndex ?s1 + 1)) (history ?s1) = take (nat (historyIndex ?s1)) (history ?s1) @ [?a]"
  proof -
    have "nat (historyIndex ?s1 + 1) = Suc (nat (historyIndex ?s1))" using cur1(1) by simp
    moreover have "nat (historyIndex ?s1) < length (history ?s1)" using cur1(1,2) by simp
    ultimately show ?thesis using cur1(3) by (simp add: take_Suc_conv_app_nth)
  qed
  have "history_ends (addToHistory ?b ?s1) ([?a] @ [?b])"
    using cur1(1,2) tk1 df(1) by (intro addToHistory_push) simp_all
  moreover have h2: "history ?s2 = history (addToHistory ?b ?s1)"
        "historyIndex ?s2 = historyIndex (addToHistory ?b ?s1)"
    using navigateToPath_succeeds[OF on1 ok1 pne(2) ls(2), of True] by simp_all
  ultimately have e2: "history_ends ?s2 [?a, ?b]"
    using history_ends_cong[OF h2] by simp
  then obtain pre where pre: "history ?s2 = pre @ [?a, ?b]" "historyIndex ?s2 = int (length pre + 2) - 1"
    by (auto simp: history_ends_def)
  have "history_ends (addToHistory ?c ?s2) ([?a, ?b] @ [?c])"
    using pre df(2) by (intro addToHistory_push[where pre = pre]) simp_all
  moreover have h3: "history s3 = history (addToHistory ?c ?s2)"
        "historyIndex s3 = historyIndex (addToHistory ?c ?s2)"
        "currentPath s3 = Some ?c"
    unfolding s3_def using navigateToPath_succeeds[OF on2 ok2 pne(3) ls(3), of True] by simp_all
  ultimately have e3: "history_ends s3 [?a, ?b, ?c]"
    using history_ends_cong[OF h3(1,2)] by simp
  have "isOnline s3" "cache_ok s3" unfolding s3_def using on2 ok2 by (simp_all add: cache_ok_navigateToPath)
  then show ?thesis using e3 h3(3) by simp
qed

text \<open>
  Claim C3. \<open>goBack\<close> lowers the history index by exactly one when it is above the first
  entry, \<open>goForward\<close> raises it by exactly one when it is below the last; each then
  navigates to the history path at the new index with \<open>addToHistory = false\<close>, so the
  history itself is unchanged; at its bound each leaves the whole state as it is.
  Consequently, from any reachable online state, after navigating to three paths with
  distinct non-empty normal forms that the backend lists, two \<open>goBack\<close>s make the first
  the current path and a following \<open>goForward\<close> the second.
\<close>

theorem C3_back_forward:
  "(0 < historyIndex s \<longrightarrow>
      historyIndex (goBack h s) = historyIndex s - 1 \<and> history (goBack h s) = history s) \<and>
   (0 < historyIndex s \<and> historyIndex s \<le> int (length (history s)) \<longrightarrow>
      goBack h s = navigateToPath h (history s ! nat (historyIndex s - 1)) False
                     (s\<lparr>historyIndex := historyIndex s - 1\<rparr>)) \<and>
   (historyIndex s \<le> 0 \<longrightarrow> goBack h s = s) \<and>
   (historyIndex s < int (length (history s)) - 1 \<longrightarrow>
      historyIndex (goForward h s) = historyIndex s + 1 \<and> history (goForward h s) = history s) \<and>
   (- 1 \<le> historyIndex s \<and> historyIndex s < int (length (history s)) - 1 \<longrightarrow>
      goForward h s = navigateToPath h (history s ! nat (historyIndex s + 1)) False
                        (s\<lparr>historyIndex := historyIndex s + 1\<rparr>)) \<and>
   (int (length (history s)) - 1 \<le> historyIndex s \<longrightarrow> goForward h s = s) \<and>
   (s = run tr constructor \<and> isOnline s \<and>
    normalizePath pa \<noteq> [] \<and> normalizePath pb \<noteq> [] \<and> normalizePath pc \<noteq> [] \<and>
    distinct [normalizePath pa, normalizePath pb, normalizePath pc] \<and>
    list_succeeds h (normalizePath pa) \<and> list_succeeds h (normalizePath pb) \<and>
    list_succeeds h (normalizePath pc) \<longrightarrow>
      (let s3 = navigateToPath h pc True (navigateToPath h pb True (navigateToPath h pa True s))
       in currentPath s3 = Some (normalizePath pc) \<and>
          currentPath (goBack h (goBack h s3)) = Some (normalizePath pa) \<and>
          currentPath (goForward h (goBack h (goBack h s3))) = Some (normalizePath pb)))"
proof -
  have back_move: "historyIndex (goBack h s) = historyIndex s - 1 \<and> history (goBack h s) = history s"
    if "0 < historyIndex s"
    using that navigateToPath_no_history[of h _ "s\<lparr>historyIndex := historyIndex s - 1\<rparr>"]
    by (simp add: goBack_def Let_def split: option.splits)
  have back_nav: "goBack h s = navigateToPath h (history s ! nat (historyIndex s - 1)) False
                     (s\<lparr>historyIndex := historyIndex s - 1\<rparr>)"
    if "0 < historyIndex s \<and> historyIndex s \<le> int (length (history s))"
    using that by (simp add: goBack_def Let_def history_at_def)
  have back_stop: "goBack h s = s" if "historyIndex s \<le> 0"
    using that by (simp add: goBack_def)
  have fwd_move: "historyIndex (goForward h s) = historyIndex s + 1 \<and> history (goForward h s) = history s"
    if "historyIndex s < int (length (history s)) - 1"
    using that navigateToPath_no_history[of h _ "s\<lparr>historyIndex := historyIndex s + 1\<rparr>"]
    by (simp add: goForward_def Let_def split: option.splits)
  have fwd_nav: "goForward h s = navigateToPath h (history s ! nat (historyIndex s + 1)) False
                        (s\<lparr>historyIndex := historyIndex s + 1\<rparr>)"
    if "- 1 \<le> historyIndex s \<and> historyIndex s < int (length (history s)) - 1"
    using that by (simp add: goForward_def Let_def history_at_def)
  have fwd_stop: "goForward h s = s" if "int (length (history s)) - 1 \<le> historyIndex s"
    using that by (simp add: goForward_def)
  have scenario:
    "(let s3 = navigateToPath h pc True (navigateToPath h pb True (navigateToPath h pa True s))
       in currentPath s3 = Some (normalizePath pc) \<and>
          currentPath (goBack h (goBack h s3)) = Some (normalizePath pa) \<and>
          currentPath (goForward h (goBack h (goBack h s3))) = Some (normalizePath pb))"
    if hyp: "s = run tr constructor \<and> isOnline s \<and>
    normalizePath pa \<noteq> [] \<and> normalizePath pb \<noteq> [] \<and> normalizePath pc \<noteq> [] \<and>
    distinct [normalizePath pa, normalizePath pb, normalizePath pc] \<and>
    list_succeeds h (normalizePath pa) \<and> list_succeeds h (normalizePath pb) \<and>
    list_succeeds h (normalizePath pc)"
  proof -
    let ?a = "normalizePath pa" and ?b = "normalizePath pb" and ?c = "normalizePath pc"
    define s3 where "s3 = navigateToPath h pc True (navigateToPath h pb True (navigateToPath h pa True s))"
    have ok: "cache_ok s" using hyp cache_ok_run[OF cache_ok_constructor] by blast
    have on: "isOnline s" using hyp by blast
    have ne: "?a \<noteq> []" "?b \<noteq> []" "?c \<noteq> []" using hyp by blast+
    have df: "?a \<noteq> ?b" "?b \<noteq> ?c" using hyp by auto
    have ls: "list_succeeds h ?a" "list_succeeds h ?b" "list_succeeds h ?c" using hyp by blast+
    have three: "isOnline s3 \<and> cache_ok s3 \<and> currentPath s3 = Some ?c \<and> history_ends s3 [?a, ?b, ?c]"
      unfolding s3_def using on ok ne df ls by (rule three_navigations)
    then obtain pre where pre: "history s3 = pre @ [?a, ?b, ?c]" "historyIndex s3 = int (length pre) + 2"
      by (auto simp: history_ends_def)
    have g1: "currentPath (goBack h s3) = Some ?b \<and> history (goBack h s3) = history s3 \<and>
         historyIndex (goBack h s3) = int (length (pre @ [?a])) \<and> isOnline (goBack h s3) \<and> cache_ok (goBack h s3)"
      using three pre ne ls by (intro goBack_moves[where post = "[?c]"]) (simp_all add: normalizePath_idem)
    have g2: "currentPath (goBack h (goBack h s3)) = Some ?a \<and> history (goBack h (goBack h s3)) = history (goBack h s3) \<and>
         historyIndex (goBack h (goBack h s3)) = int (length pre) \<and> isOnline (goBack h (goBack h s3)) \<and>
         cache_ok (goBack h (goBack h s3))"
      using g1 pre ne ls by (intro goBack_moves[where post = "[?b, ?c]"]) (simp_all add: normalizePath_idem)
    have g3: "currentPath (goForward h (goBack h (goBack h s3))) = Some ?b \<and>
         history (goForward h (goBack h (goBack h s3))) = history (goBack h (goBack h s3)) \<and>
         historyIndex (goForward h (goBack h (goBack h s3))) = int (length (pre @ [?a])) \<and>
         isOnline (goForward h (goBack h (goBack h s3))) \<and> cache_ok (goForward h (goBack h (goBack h s3)))"
      using g1 g2 pre ne ls by (intro goForward_moves[where post = "[?c]"]) (simp_all add: normalizePath_idem)
    show ?thesis using three g2 g3 by (simp add: s3_def[symmetric] Let_def)
  qed
  show ?thesis
    using back_move back_nav back_stop fwd_move fwd_nav fwd_stop scenario by blast
qed

theorem C3_back_forward_witness:
  "online = run [(listing_host, ConnectionStatus True)] constructor \<and> isOnline online \<and>
   normalizePath ''C:/a'' = driveC @ ''a'' \<and> normalizePath ''C:/b/'' = driveC @ ''b'' \<and>
   normalizePath ''C:/c'' = driveC @ ''c'' \<and>
   distinct [normalizePath ''C:/a'', normalizePath ''C:/b/'', normalizePath ''C:/c''] \<and>
   list_succeeds listing_host (normalizePath ''C:/a'') \<and>
   list_succeeds listing_host (normalizePath ''C:/b/'') \<and>
   list_succeeds listing_host (normalizePath ''C:/c'') \<and>
   currentPath three_visits = Some (driveC @ ''c'') \<and>
   currentPath (goBack listing_host (goBack listing_host three_visits)) = Some (driveC @ ''a'') \<and>
   currentPath (goForward listing_host (goBack listing_host (goBack listing_host three_visits)))
     = Some (driveC @ ''b'') \<and>
   historyIndex online \<le> 0 \<and> goBack listing_host online = online \<and>
   int (length (history online)) - 1 \<le> historyIndex online \<and> goForward listing_host online = online \<and>
   0 < historyIndex three_visits \<and> historyIndex three_visits \<le> int (length (history three_visits)) \<and>
   historyIndex (goBack listing_host three_visits) = historyIndex three_visits - 1 \<and>
   history (goBack listing_host three_visits) = history three_visits \<and>
   goBack listing_host three_visits =
     navigateToPath listing_host (history three_visits ! nat (historyIndex three_visits - 1)) False
       (three_visits\<lparr>historyIndex := historyIndex three_visits - 1\<rparr>) \<and>
   - 1 \<le> historyIndex (goBack listing_host three_visits) \<and>
   historyIndex (goBack listing_host three_visits)
     < int (length (history (goBack listing_host three_visits))) - 1 \<and>
   historyIndex (goForward listing_host (goBack listing_host three_visits))
     = historyIndex (goBack listing_host three_visits) + 1 \<and>
   history (goForward listing_host (goBack listing_host three_visits))
     = history (goBack listing_host three_visits) \<and>
   goForward listing_host (goBack listing_host three_visits) =
     navigateToPath listing_host
       (history (goBack listing_host three_visits) ! nat (historyIndex (goBack listing_host three_visits) + 1))
       False
       ((goBack listing_host three_visits)
          \<lparr>historyIndex := historyIndex (goBack listing_host three_visits) + 1\<rparr>)"
proof -
  have r: "online = run [(listing_host, ConnectionStatus True)] constructor"
    by (simp add: online_def)
  have o: "isOnline online \<and> historyIndex online = - 1 \<and> history online = []"
    by (simp add: online_def setConnectionStatus_def constructor_def)
  have n: "normalizePath ''C:/a'' = driveC @ ''a'' \<and> normalizePath ''C:/b/'' = driveC @ ''b'' \<and>
           normalizePath ''C:/c'' = driveC @ ''c''"
    by code_simp
  have d: "distinct [normalizePath ''C:/a'', normalizePath ''C:/b/'', normalizePath ''C:/c'']"
          "normalizePath ''C:/a'' \<noteq> []" "normalizePath ''C:/b/'' \<noteq> []" "normalizePath ''C:/c'' \<noteq> []"
    using n by (simp_all add: driveC_def)
  have l: "list_succeeds listing_host p" for p
    by (simp add: list_succeeds_def listing_host_def driveC_listing_def)
  note inst = C3_back_forward[of online listing_host "[(listing_host, ConnectionStatus True)]"
                 "''C:/a''" "''C:/b/''" "''C:/c''"]
  have sc: "currentPath three_visits = Some (normalizePath ''C:/c'') \<and>
        currentPath (goBack listing_host (goBack listing_host three_visits)) = Some (normalizePath ''C:/a'') \<and>
        currentPath (goForward listing_host (goBack listing_host (goBack listing_host three_visits)))
          = Some (normalizePath ''C:/b/'')"
    using inst r o d l by (simp add: three_visits_def Let_def)
  have st: "goBack listing_host online = online \<and> goForward listing_host online = online"
    using inst o by simp
  have ok: "cache_ok online"
    by (simp add: cache_ok_def online_def setConnectionStatus_def constructor_def)
  have "history_ends three_visits [normalizePath ''C:/a'', normalizePath ''C:/b/'', normalizePath ''C:/c'']"
    unfolding three_visits_def
    using three_navigations[of online "''C:/a''" "''C:/b/''" "''C:/c''" listing_host] o ok d l by simp
  then obtain pre where pre:
    "history three_visits = pre @ [normalizePath ''C:/a'', normalizePath ''C:/b/'', normalizePath ''C:/c'']"
    "historyIndex three_visits = int (length pre) + 2"
    by (auto simp: history_ends_def)
  have p1: "0 < historyIndex three_visits \<and> historyIndex three_visits \<le> int (length (history three_visits))"
    using pre by simp
  note at3 = C3_back_forward[of three_visits listing_host]
  have b1: "historyIndex (goBack listing_host three_visits) = historyIndex three_visits - 1 \<and>
            history (goBack listing_host three_visits) = history three_visits"
    using at3 p1 by blast
  have b2: "goBack listing_host three_visits =
     navigateToPath listing_host (history three_visits ! nat (historyIndex three_visits - 1)) False
       (three_visits\<lparr>historyIndex := historyIndex three_visits - 1\<rparr>)"
    using at3 p1 by blast
  have p2: "- 1 \<le> historyIndex (goBack listing_host three_visits) \<and>
            historyIndex (goBack listing_host three_visits)
              < int (length (history (goBack listing_host three_visits))) - 1"
    using b1 pre by simp
  note atb = C3_back_forward[of "goBack listing_host three_visits" listing_host]
  have f1: "historyIndex (goForward listing_host (goBack listing_host three_visits))
              = historyIndex (goBack listing_host three_visits) + 1 \<and>
            history (goForward listing_host (goBack listing_host three_visits))
              = history (goBack listing_host three_visits)"
    using atb p2 by blast
  have f2: "goForward listing_host (goBack listing_host three_visits) =
     navigateToPath listing_host
       (history (goBack listing_host three_visits) ! nat (historyIndex (goBack listing_host three_visits) + 1))
       False
       ((goBack listing_host three_visits)
          \<lparr>historyIndex := historyIndex (goBack listing_host three_visits) + 1\<rparr>)"
    using atb p2 by blast
  have first: "online = run [(listing_host, ConnectionStatus True)] constructor \<and> isOnline online \<and>
   normalizePath ''C:/a'' = driveC @ ''a'' \<and> normalizePath ''C:/b/'' = driveC @ ''b'' \<and>
   normalizePath ''C:/c'' = driveC @ ''c'' \<and>
   distinct [normalizePath ''C:/a'', normalizePath ''C:/b/'', normalizePath ''C:/c''] \<and>
   list_succeeds listing_host (normalizePath ''C:/a'') \<and>
   list_succeeds listing_host (normalizePath ''C:/b/'') \<and>
   list_succeeds listing_host (normalizePath ''C:/c'') \<and>
   currentPath three_visits = Some (driveC @ ''c'') \<and>
   currentPath (goBack listing_host (goBack listing_host three_visits)) = Some (driveC @ ''a'') \<and>
   currentPath (goForward listing_host (goBack listing_host (goBack listing_host three_visits)))
     = Some (driveC @ ''b'') \<and>
   historyIndex online \<le> 0 \<and> goBack listing_host online = online \<and>
   int (length (history online)) - 1 \<le> historyIndex online \<and> goForward listing_host online = online"
    using r o n d l sc st by simp
  show ?thesis using first p1 b1 b2 p2 f1 f2 by blast
qed

subsection \<open>Relevance ranking\<close>

lemma startsWith_prefix: "startsWith s p = prefix p s"
  by (auto simp: startsWith_def prefix_def) (metis append_eq_conv_conj)

lemma includes_str_sublist: "includes_str s sub = sublist sub s"
proof (induction s)
  case Nil
  then show ?case by auto
next
  case (Cons c s)
  show ?case
  proof (cases sub)
    case Nil
    then show ?thesis by (simp add: startsWith_def)
  next
    case (Cons d sub')
    then show ?thesis using Cons.IH
      by (simp add: startsWith_prefix sublist_Cons_right)
  qed
qed

lemma lower_char_nat:
  "(of_char (lower_char c) :: nat) = (if is_capital c then of_char c + 32 else of_char c)"
  by (auto simp: lower_char_def is_capital_def Let_def of_char_of)

lemma lower_char_same_letter: "lower_char x = lower_char y \<longleftrightarrow> same_letter x y"
proof -
  have "lower_char x = lower_char y \<longleftrightarrow> (of_char (lower_char x) :: nat) = of_char (lower_char y)"
    by (simp only: of_char_eq_iff)
  also have "\<dots> \<longleftrightarrow> same_letter x y"
    unfolding lower_char_nat same_letter_def small_of_def
    using of_char_eq_iff[of x y, where ?'a = nat]
    by (auto simp: is_capital_def Let_def)
  finally show ?thesis .
qed

lemma toLowerCase_ci_equal: "toLowerCase a = toLowerCase b \<longleftrightarrow> ci_equal a b"
proof -
  have "map lower_char a = map lower_char b \<longleftrightarrow> list_all2 (=) (map lower_char a) (map lower_char b)"
    by (simp only: list.rel_eq)
  also have "\<dots> \<longleftrightarrow> list_all2 (\<lambda>x y. lower_char x = lower_char y) a b"
    by (simp only: list.rel_map)
  also have "\<dots> \<longleftrightarrow> list_all2 same_letter a b"
    by (simp only: lower_char_same_letter)
  finally show ?thesis by (simp only: toLowerCase_def ci_equal_def)
qed

lemma prefix_toLowerCase:
  "prefix (toLowerCase q) (toLowerCase nm) \<longleftrightarrow> (\<exists>u \<in> set (prefixes nm). ci_equal u q)"
proof
  assume "prefix (toLowerCase q) (toLowerCase nm)"
  then obtain r where "toLowerCase nm = toLowerCase q @ r" by (auto simp: prefix_def)
  then obtain u v where "nm = u @ v" "map lower_char u = toLowerCase q"
    unfolding toLowerCase_def by (auto simp: map_eq_append_conv)
  then have "prefix u nm" "ci_equal u q"
    using toLowerCase_ci_equal[of u q] by (simp_all add: toLowerCase_def)
  then show "\<exists>u \<in> set (prefixes nm). ci_equal u q" by (auto simp: in_set_prefixes)
next
  assume "\<exists>u \<in> set (prefixes nm). ci_equal u q"
  then obtain u v where "nm = u @ v" "ci_equal u q" by (auto simp: in_set_prefixes prefix_def)
  then have "toLowerCase nm = toLowerCase q @ toLowerCase v"
    using toLowerCase_ci_equal[of u q] by (simp add: toLowerCase_def)
  then show "prefix (toLowerCase q) (toLowerCase nm)" by simp
qed

lemma sublist_toLowerCase_gen:
  "sublist ys (toLowerCase nm) \<longleftrightarrow> (\<exists>w \<in> set (sublists nm). toLowerCase w = ys)"
proof
  assume "sublist ys (toLowerCase nm)"
  then obtain ps ss where "map lower_char nm = ps @ (ys @ ss)"
    unfolding sublist_def toLowerCase_def by blast
  then obtain u r where r: "nm = u @ r" "map lower_char r = ys @ ss"
    by (metis map_eq_append_conv)
  then obtain w v where "r = w @ v" "map lower_char w = ys"
    by (metis map_eq_append_conv)
  with r have "nm = u @ w @ v" "map lower_char w = ys" by simp_all
  then have "sublist w nm" "toLowerCase w = ys" by (auto simp: sublist_def toLowerCase_def)
  then show "\<exists>w \<in> set (sublists nm). toLowerCase w = ys" by (auto simp: in_set_sublists)
next
  assume "\<exists>w \<in> set (sublists nm). toLowerCase w = ys"
  then obtain u w v where "nm = u @ w @ v" "toLowerCase w = ys"
    by (auto simp: in_set_sublists sublist_def)
  then have "toLowerCase nm = toLowerCase u @ ys @ toLowerCase v" by (auto simp: toLowerCase_def)
  then show "sublist ys (toLowerCase nm)" unfolding sublist_def by blast
qed

lemma sublist_toLowerCase:
  "sublist (toLowerCase q) (toLowerCase nm) \<longleftrightarrow> (\<exists>w \<in> set (sublists nm). ci_equal w q)"
  unfolding sublist_toLowerCase_gen toLowerCase_ci_equal ..

lemma lower_char_boundary:
  assumes "c \<in> set boundary_chars"
  shows "lower_char d = c \<longleftrightarrow> d = c"
proof -
  have n: "(of_char c :: nat) = 95 \<or> (of_char c :: nat) = 45 \<or> (of_char c :: nat) = 32"
    using assms by (auto simp: boundary_chars_def)
  have "lower_char d = c \<longleftrightarrow> (of_char (lower_char d) :: nat) = of_char c"
    by (simp only: of_char_eq_iff)
  also have "\<dots> \<longleftrightarrow> (of_char d :: nat) = of_char c"
    using n unfolding lower_char_nat is_capital_def Let_def by auto
  also have "\<dots> \<longleftrightarrow> d = c" by (simp only: of_char_eq_iff)
  finally show ?thesis .
qed

lemma boundary_toLowerCase:
  "(\<exists>c \<in> set boundary_chars. sublist (c # toLowerCase q) (toLowerCase nm)) \<longleftrightarrow>
   (\<exists>w \<in> set (sublists nm). w \<noteq> [] \<and> hd w \<in> set boundary_chars \<and> ci_equal (tl w) q)"
proof
  assume "\<exists>c \<in> set boundary_chars. sublist (c # toLowerCase q) (toLowerCase nm)"
  then obtain c where c: "c \<in> set boundary_chars"
      and "sublist (c # toLowerCase q) (toLowerCase nm)"
    by blast
  then obtain w where w: "w \<in> set (sublists nm)" "toLowerCase w = c # toLowerCase q"
    unfolding sublist_toLowerCase_gen by blast
  from w(2) have "map lower_char w = c # map lower_char q"
    by (simp only: toLowerCase_def)
  then obtain d w' where d: "w = d # w'" "lower_char d = c" "map lower_char w' = map lower_char q"
    unfolding map_eq_Cons_conv by blast
  have "d = c" using lower_char_boundary[OF c, of d] d(2) by blast
  have "ci_equal w' q"
    using toLowerCase_ci_equal[of w' q] d(3) unfolding toLowerCase_def by blast
  then have "w \<noteq> [] \<and> hd w \<in> set boundary_chars \<and> ci_equal (tl w) q"
    using c d(1) \<open>d = c\<close> by simp
  then show "\<exists>w \<in> set (sublists nm). w \<noteq> [] \<and> hd w \<in> set boundary_chars \<and> ci_equal (tl w) q"
    using w(1) by blast
next
  assume "\<exists>w \<in> set (sublists nm). w \<noteq> [] \<and> hd w \<in> set boundary_chars \<and> ci_equal (tl w) q"
  then obtain w where w: "w \<in> set (sublists nm)" "w \<noteq> []" "hd w \<in> set boundary_chars"
      "ci_equal (tl w) q"
    by blast
  have lc: "lower_char (hd w) = hd w" using lower_char_boundary[OF w(3), of "hd w"] by blast
  have "map lower_char (tl w) = map lower_char q"
    using toLowerCase_ci_equal[of "tl w" q] w(4) unfolding toLowerCase_def by blast
  then have "map lower_char (hd w # tl w) = hd w # map lower_char q"
    using lc by simp
  then have "toLowerCase w = hd w # toLowerCase q"
    using w(2) by (simp add: toLowerCase_def)
  then have "sublist (hd w # toLowerCase q) (toLowerCase nm)"
    unfolding sublist_toLowerCase_gen using w(1) by blast
  then show "\<exists>c \<in> set boundary_chars. sublist (c # toLowerCase q) (toLowerCase nm)"
    using w(3) by blast
qed

lemma calculateRelevance_spec: "calculateRelevance f q = spec_relevance f q"
proof -
  have e: "toLowerCase f = toLowerCase q \<longleftrightarrow> ci_equal f q"
    by (rule toLowerCase_ci_equal)
  have p: "startsWith (toLowerCase f) (toLowerCase q) \<longleftrightarrow> (\<exists>u \<in> set (prefixes f). ci_equal u q)"
    by (simp only: startsWith_prefix prefix_toLowerCase)
  have "(includes_str (toLowerCase f) (CHR ''_'' # toLowerCase q) \<or>
            includes_str (toLowerCase f) (CHR ''-'' # toLowerCase q) \<or>
            includes_str (toLowerCase f) (CHR '' '' # toLowerCase q))
           \<longleftrightarrow> (\<exists>c \<in> set boundary_chars. sublist (c # toLowerCase q) (toLowerCase f))"
    by (simp add: includes_str_sublist boundary_chars_def)
  then have b: "(includes_str (toLowerCase f) (CHR ''_'' # toLowerCase q) \<or>
            includes_str (toLowerCase f) (CHR ''-'' # toLowerCase q) \<or>
            includes_str (toLowerCase f) (CHR '' '' # toLowerCase q))
           \<longleftrightarrow> (\<exists>w \<in> set (sublists f). w \<noteq> [] \<and> hd w \<in> set boundary_chars \<and> ci_equal (tl w) q)"
    by (simp only: boundary_toLowerCase)
  have s: "includes_str (toLowerCase f) (toLowerCase q) \<longleftrightarrow> (\<exists>w \<in> set (sublists f). ci_equal w q)"
    by (simp only: includes_str_sublist sublist_toLowerCase)
  show ?thesis
    unfolding calculateRelevance_def spec_relevance_def Let_def e p b s ..
qed

lemma insertBy_insort:
  "insertBy (\<lambda>a b. f b - f a) x ys = insort_key (\<lambda>a. - f a) x ys" for f :: "'a \<Rightarrow> int"
  by (induction ys) auto

lemma sortBy_sort_key:
  "sortBy (\<lambda>a b. f b - f a) xs = sort_key (\<lambda>a. - f a) xs" for f :: "'a \<Rightarrow> int"
  by (induction xs) (simp_all add: sortBy_def insertBy_insort)

lemma rankResults_sort_key:
  "rankResults q items = sort_key (\<lambda>a. - calculateRelevance (name a) q) items"
  by (simp add: rankResults_def sortBy_sort_key)

lemma rank_sorted: "sorted_wrt (\<lambda>a b. calculateRelevance (name a) q \<ge> calculateRelevance (name b) q) (rankResults q items)"
proof -
  have "sorted (map (\<lambda>a. - calculateRelevance (name a) q) (rankResults q items))"
    by (simp add: rankResults_sort_key)
  then show ?thesis by (simp add: sorted_map)
qed

lemma rank_mset: "mset (rankResults q items) = mset items"
  by (simp add: rankResults_sort_key)

lemma rank_stable: "filter (\<lambda>a. calculateRelevance (name a) q = k) (rankResults q items)
    = filter (\<lambda>a. calculateRelevance (name a) q = k) items"
  using sort_key_stable[of "\<lambda>a. - calculateRelevance (name a) q" "- k" items]
  by (simp add: rankResults_sort_key)

text \<open>
  Claim C4. For every file name and query the score computed by \<open>calculateRelevance\<close>,
  which compares the lower-cased strings, is the one the specification describes with
  case-insensitive matching (\<open>spec_relevance\<close>: 1000 exact, 800 prefix, 600 after \<open>_\<close>,
  \<open>-\<close> or a space, 400 any other occurrence, 0 none). The ranking sorts by descending
  score, keeps exactly the merged items, and keeps items of equal score in their
  first-seen order; it is the result list of a search that misses its cache. For the query
  \<open>log\<close> the four names of the example come out as \<open>log.txt\<close>, \<open>my-log-file.txt\<close>,
  \<open>catalog.txt\<close>, \<open>backlog.txt\<close>.
\<close>

theorem C4_relevance_ranking:
  "calculateRelevance filename query = spec_relevance filename query \<and>
   sorted_wrt (\<lambda>a b. calculateRelevance (name a) query \<ge> calculateRelevance (name b) query)
     (rankResults query items) \<and>
   mset (rankResults query items) = mset items \<and>
   (\<forall>k. filter (\<lambda>a. calculateRelevance (name a) query = k) (rankResults query items)
        = filter (\<lambda>a. calculateRelevance (name a) query = k) items) \<and>
   (trim query \<noteq> [] \<and> map_get (searchCacheKey s query) (searchCache s) = None \<longrightarrow>
      currentItems (performFastSearch h query s)
        = Some (rankResults query (mergeResults (map (apiCall h) (searchRequests s query))))) \<and>
   map name (rankResults ''log'' (map named [''log.txt'', ''catalog.txt'', ''my-log-file.txt'', ''backlog.txt'']))
     = [''log.txt'', ''my-log-file.txt'', ''catalog.txt'', ''backlog.txt'']"
proof -
  have ex: "map name (rankResults ''log'' (map named [''log.txt'', ''catalog.txt'', ''my-log-file.txt'', ''backlog.txt'']))
     = [''log.txt'', ''my-log-file.txt'', ''catalog.txt'', ''backlog.txt'']"
    by code_simp
  have link: "currentItems (performFastSearch h query s)
        = Some (rankResults query (mergeResults (map (apiCall h) (searchRequests s query))))"
    if "trim query \<noteq> [] \<and> map_get (searchCacheKey s query) (searchCache s) = None"
    using that performFastSearch_miss[of query s h] by (simp add: Let_def)
  show ?thesis
    using calculateRelevance_spec rank_sorted rank_mset rank_stable ex link by blast
qed

theorem C4_relevance_ranking_witness:
  "trim ''log'' \<noteq> [] \<and> map_get (searchCacheKey constructor ''log'') (searchCache constructor) = None \<and>
   currentItems (performFastSearch log_host ''log'' constructor)
     = Some (map named [''log.txt'', ''my-log-file.txt'', ''catalog.txt'', ''backlog.txt'']) \<and>
   map (\<lambda>n. spec_relevance n ''log'') log_names = [800, 400, 600, 400] \<and>
   map (\<lambda>n. calculateRelevance n ''LoG'') mixed_case_names = [1000, 800, 600, 600, 400, 0] \<and>
   map (\<lambda>n. spec_relevance n ''LoG'') mixed_case_names = [1000, 800, 600, 600, 400, 0] \<and>
   calculateRelevance [CHR 0xC9, CHR ''T'', CHR 0xC9] [CHR 0xE9, CHR ''t'', CHR 0xE9] = 1000 \<and>
   spec_relevance [CHR 0xC9, CHR ''T'', CHR 0xC9] [CHR 0xE9, CHR ''t'', CHR 0xE9] = 1000 \<and>
   calculateRelevance [CHR 0xD7] [CHR 0xF7] = 0 \<and>
   spec_relevance [CHR 0xD7] [CHR 0xF7] = 0"
proof -
  have a: "trim ''log'' \<noteq> []" by code_simp
  have b: "map_get (searchCacheKey constructor ''log'') (searchCache constructor) = None"
    by (simp add: constructor_def map_get_def)
  have c: "rankResults ''log'' (mergeResults (map (apiCall log_host) (searchRequests constructor ''log'')))
     = map named [''log.txt'', ''my-log-file.txt'', ''catalog.txt'', ''backlog.txt'']"
    by code_simp
  have d: "map (\<lambda>n. calculateRelevance n ''log'') log_names = [800, 400, 600, 400]"
    by code_simp
  have e: "map (\<lambda>n. spec_relevance n ''log'') log_names = map (\<lambda>n. calculateRelevance n ''log'') log_names"
    by (simp only: C4_relevance_ranking[THEN conjunct1, symmetric])
  note link = C4_relevance_ranking[of _ "''log''" _ constructor log_host,
                THEN conjunct2, THEN conjunct2, THEN conjunct2, THEN conjunct2, THEN conjunct1]
  have f: "currentItems (performFastSearch log_host ''log'' constructor)
        = Some (rankResults ''log'' (mergeResults (map (apiCall log_host) (searchRequests constructor ''log''))))"
    using link a b by blast
  have g: "map (\<lambda>n. calculateRelevance n ''LoG'') mixed_case_names = [1000, 800, 600, 600, 400, 0]"
    by code_simp
  have h: "map (\<lambda>n. spec_relevance n ''LoG'') mixed_case_names = [1000, 800, 600, 600, 400, 0]"
    by code_simp
  have i: "calculateRelevance [CHR 0xC9, CHR ''T'', CHR 0xC9] [CHR 0xE9, CHR ''t'', CHR 0xE9] = 1000"
    by code_simp
  have j: "spec_relevance [CHR 0xC9, CHR ''T'', CHR 0xC9] [CHR 0xE9, CHR ''t'', CHR 0xE9] = 1000"
    by code_simp
  have k: "calculateRelevance [CHR 0xD7] [CHR 0xF7] = 0"
    by code_simp
  have l: "spec_relevance [CHR 0xD7] [CHR 0xF7] = 0"
    by code_simp
  have abcdef: "trim ''log'' \<noteq> [] \<and> map_get (searchCacheKey constructor ''log'') (searchCache constructor) = None \<and>
   currentItems (performFastSearch log_host ''log'' constructor)
     = Some (map named [''log.txt'', ''my-log-file.txt'', ''catalog.txt'', ''backlog.txt'']) \<and>
   map (\<lambda>n. spec_relevance n ''log'') log_names = [800, 400, 600, 400]"
    using a b c d e f by simp
  show ?thesis
    using abcdef g h i j k l by blast
qed

subsection \<open>Display order of search results\<close>

text \<open>
  Claim C5. The claim says that search results are shown in relevance-rank order. In
  the code \<open>performFastSearch\<close> hands the ranked list to \<open>renderFileList\<close>, which (for
  at most 1000 items, or outside the list view) goes through \<open>renderAllItems\<close> and sorts
  folders first and by name. For a backend that returns the file \<open>log.txt\<close> and the
  folder \<open>my-log\<close>, the query \<open>log\<close> ranks the file (800) before the folder (600), and
  the file list shows the folder before the file, whatever \<open>localeCompare\<close> is.
\<close>

theorem C5_search_results_are_resorted:
  "isSearchMode (performFastSearch (mixed_host cmp) ''log'' constructor) \<and>
   currentItems (performFastSearch (mixed_host cmp) ''log'' constructor)
     = Some (rankResults ''log'' [named ''log.txt'', log_folder]) \<and>
   rankResults ''log'' [named ''log.txt'', log_folder] = [named ''log.txt'', log_folder] \<and>
   fileList (performFastSearch (mixed_host cmp) ''log'' constructor)
     = RenderedAll [log_folder, named ''log.txt'']"
proof -
  have a: "trim ''log'' \<noteq> []" by code_simp
  have b: "map_get (searchCacheKey constructor ''log'') (searchCache constructor) = None"
    by (simp add: constructor_def map_get_def)
  have m: "mergeResults (map (apiCall (mixed_host cmp)) (searchRequests constructor ''log''))
        = [named ''log.txt'', log_folder]"
    by code_simp
  have r: "rankResults ''log'' [named ''log.txt'', log_folder] = [named ''log.txt'', log_folder]"
    by code_simp
  have s: "sortedItems (mixed_host cmp) [named ''log.txt'', log_folder] = [log_folder, named ''log.txt'']"
    by (simp add: sortedItems_def sortBy_def named_def log_folder_def)
  show ?thesis
    using performFastSearch_miss[OF a b, of "mixed_host cmp"] m r s
    by (simp add: Let_def renderFileList_def renderAllItems_def showStatus_def constructor_def
                  virtualScrollThreshold_def)
qed

subsection \<open>The virtual window\<close>

lemma mset_insertBy: "mset (insertBy cmp x ys) = add_mset x (mset ys)"
  by (induction ys) auto

lemma mset_sortBy: "mset (sortBy cmp xs) = mset xs"
  by (induction xs) (simp_all add: sortBy_def mset_insertBy)

lemma mset_sortedItems: "mset (sortedItems h items) = mset items"
  by (simp add: sortedItems_def mset_sortBy Let_def)






subsection \<open>Navigation to a cached path\<close>

lemma fileList_renderFileList:
  "fileList (renderFileList h items s) =
     (if items = [] then EmptyState
      else if currentView s = ListView \<and> length items > 1000
      then RenderedVirtual 0 (slice items 0 (visibleItems s))
             ((int (length items) - int (visibleItems s)) * 36)
      else if currentView s = DetailView then RenderedDetail (sortedItems h items)
      else RenderedAll (sortedItems h items))"
  by (simp add: renderFileList_def renderVirtualItems_def renderAllItems_def
                virtualScrollThreshold_def itemHeight_def Let_def)

lemma navigateToPath_cached:
  assumes "map_get (normalizePath p) (cache s) = Some d" "success d" "p \<noteq> []" "isOnline s"
  shows "currentPath (navigateToPath h p a s) = Some (normalizePath p)"
    and "currentItems (navigateToPath h p a s) = Some (data d)"
    and "fileList (navigateToPath h p a s) =
           (if data d = [] then EmptyState
            else if currentView s = ListView \<and> length (data d) > 1000
            then RenderedVirtual 0 (slice (data d) 0 (visibleItems s))
                   ((int (length (data d)) - int (visibleItems s)) * 36)
            else if currentView s = DetailView then RenderedDetail (sortedItems h (data d))
            else RenderedAll (sortedItems h (data d)))"
proof -
  let ?t = "showStatus (MsgLoadingPath (normalizePath p)) StLoading s"
  have eq: "navigateToPath h p a s = navigate_finish h (normalizePath p) a d ?t"
    using assms(3,4,1) by (rule navigateToPath_hit)
  note fin = navigate_finish_success[OF assms(2), of h "normalizePath p" a ?t]
  show "currentPath (navigateToPath h p a s) = Some (normalizePath p)"
    unfolding eq using fin by blast
  show "currentItems (navigateToPath h p a s) = Some (data d)"
    unfolding eq using fin by blast
  have "fileList (navigateToPath h p a s) = fileList (renderFileList h (data d) ?t)"
    unfolding eq using fin by blast
  then show "fileList (navigateToPath h p a s) =
           (if data d = [] then EmptyState
            else if currentView s = ListView \<and> length (data d) > 1000
            then RenderedVirtual 0 (slice (data d) 0 (visibleItems s))
                   ((int (length (data d)) - int (visibleItems s)) * 36)
            else if currentView s = DetailView then RenderedDetail (sortedItems h (data d))
            else RenderedAll (sortedItems h (data d)))"
    by (simp only: fileList_renderFileList showStatus_fields)
qed

lemma visited_big_facts:
  "isOnline visited_big"
  "cache visited_big = [(driveC, big_listing)]"
  "currentView visited_big = ListView"
  "visibleItems visited_big = 50"
proof -
  have on: "isOnline online" "cache online = []" "currentView online = ListView"
      "visibleItems online = 50"
    by (simp_all add: online_def setConnectionStatus_def constructor_def showStatus_def)
  have vb: "visited_big = navigateToPath big_host driveC True online"
    by (simp add: visited_big_def online_def)
  have np: "normalizePath driveC = driveC" by code_simp
  have ne: "driveC \<noteq> []" by (simp add: driveC_def)
  have fresh: "cache (navigateToPath big_host driveC True online) = cache online @ [(driveC, big_listing)]"
    using navigateToPath_fresh[of online driveC big_host big_listing True] on np ne
    by (simp add: map_has_def big_host_def big_listing_def)
  show "isOnline visited_big" unfolding vb using on by simp
  show "cache visited_big = [(driveC, big_listing)]" unfolding vb using fresh on by simp
  show "currentView visited_big = ListView" unfolding vb using on by simp
  show "visibleItems visited_big = 50" unfolding vb using on by simp
qed

text \<open>
  Claim C2, as stated, fails in two ways. First, \<open>navigateToPath\<close> returns at once when
  the client is offline, before it looks at the cache: after visiting \<open>C:\\\<close> and the empty
  folder \<open>C:\\Users\<close> and losing the connection, \<open>C:\\\<close> is still in the Directory Cache,
  yet navigating to it changes nothing and the page goes on showing the empty folder.
  Second, in the list view a cached listing of more than 1000 entries is rendered as its
  first window only: of 5000 cached entries 50 rows are shown.
\<close>

theorem C2_cached_navigation_counterexample:
  "map_get (normalizePath driveC) (cache offline_after_visits) = Some driveC_listing \<and>
   length (data driveC_listing) = 3 \<and>
   isOnline offline_after_visits = False \<and>
   navigateToPath two_folder_host driveC True offline_after_visits = offline_after_visits \<and>
   currentPath (navigateToPath two_folder_host driveC True offline_after_visits) = Some (driveC @ ''Users'') \<and>
   fileList (navigateToPath two_folder_host driveC True offline_after_visits) = EmptyState \<and>
   \<not> renders_exactly (fileList (navigateToPath two_folder_host driveC True offline_after_visits))
        (data driveC_listing) \<and>
   map_get (normalizePath driveC) (cache visited_big) = Some big_listing \<and>
   isOnline visited_big = True \<and>
   length (data big_listing) = 5000 \<and>
   length (rendered_rows (fileList (navigateToPath big_host driveC True visited_big))) = 50 \<and>
   \<not> renders_exactly (fileList (navigateToPath big_host driveC True visited_big)) (data big_listing)"
proof -
  have a: "map_get (normalizePath driveC) (cache offline_after_visits) = Some driveC_listing"
    by code_simp
  have b: "length (data driveC_listing) = 3" by (simp add: driveC_listing_def)
  have c: "isOnline offline_after_visits = False" by code_simp
  have d: "navigateToPath two_folder_host driveC True offline_after_visits = offline_after_visits"
    using c by (simp add: navigateToPath_rejected)
  have e: "currentPath offline_after_visits = Some (driveC @ ''Users'')" by code_simp
  have f: "fileList offline_after_visits = EmptyState" by code_simp
  have g: "\<not> renders_exactly EmptyState (data driveC_listing)"
    by (simp add: renders_exactly_def driveC_listing_def)
  have np: "normalizePath driveC = driveC" by code_simp
  have h: "map_get (normalizePath driveC) (cache visited_big) = Some big_listing"
    by (simp add: np visited_big_facts map_get_def)
  have len: "length (data big_listing) = 5000"
    by (simp add: big_listing_def five_thousand_files_def)
  have ok: "success big_listing" by (simp add: big_listing_def)
  have ne: "driveC \<noteq> []" by (simp add: driveC_def)
  have i: "fileList (navigateToPath big_host driveC True visited_big)
             = RenderedVirtual 0 (slice (data big_listing) 0 50) ((5000 - 50) * 36)"
    using navigateToPath_cached(3)[OF h ok ne visited_big_facts(1), of big_host True] len
    by (auto simp: visited_big_facts)
  have j: "length (rendered_rows (fileList (navigateToPath big_host driveC True visited_big))) = 50"
    unfolding i using len by (simp add: slice_def)
  have k: "\<not> renders_exactly (fileList (navigateToPath big_host driveC True visited_big)) (data big_listing)"
  proof
    assume "renders_exactly (fileList (navigateToPath big_host driveC True visited_big)) (data big_listing)"
    then have "length (rendered_rows (fileList (navigateToPath big_host driveC True visited_big)))
                 = length (data big_listing)"
      unfolding renders_exactly_def by (rule mset_eq_length)
    then show False using j len by simp
  qed
  show ?thesis
    using a b c d e f g h visited_big_facts(1) len j k by simp
qed

text \<open>
  Claim C2, amended. In every state the engine can reach, navigating to a path whose
  normalised form is a key of the Directory Cache hands no request to the backend. When the
  path is empty or the client is offline the call changes nothing. Otherwise the current
  path becomes the normalised path, the current items are the cached listing, and the file
  list shows that listing: the empty-folder notice for an empty listing; in the list view
  the first window of \<open>visibleItems\<close> entries of a listing of more than 1000 entries; and
  in every other case all entries of the listing, folders before files and each group
  sorted by name, which are exactly the entries of the cached listing.
\<close>

theorem C2_cached_navigation:
  assumes "s = run tr constructor"
      and "map_get (normalizePath p) (cache s) = Some d"
  shows "apiCalls (navigateToPath h p a s) = apiCalls s \<and>
         (p = [] \<or> \<not> isOnline s \<longrightarrow> navigateToPath h p a s = s) \<and>
         (p \<noteq> [] \<and> isOnline s \<longrightarrow>
            currentPath (navigateToPath h p a s) = Some (normalizePath p) \<and>
            currentItems (navigateToPath h p a s) = Some (data d) \<and>
            fileList (navigateToPath h p a s) =
              (if data d = [] then EmptyState
               else if currentView s = ListView \<and> length (data d) > 1000
               then RenderedVirtual 0 (slice (data d) 0 (visibleItems s))
                      ((int (length (data d)) - int (visibleItems s)) * 36)
               else if currentView s = DetailView then RenderedDetail (sortedItems h (data d))
               else RenderedAll (sortedItems h (data d))) \<and>
            mset (sortedItems h (data d)) = mset (data d) \<and>
            (currentView s \<noteq> ListView \<or> length (data d) \<le> 1000 \<longrightarrow>
               renders_exactly (fileList (navigateToPath h p a s)) (data d)))"
proof -
  have ok: "success d"
    using assms cache_ok_run[OF cache_ok_constructor] cache_ok_get by blast
  have calls: "apiCalls (navigateToPath h p a s) = apiCalls s"
    using assms(2) by (simp add: navigateToPath_def Let_def)
  have noop: "navigateToPath h p a s = s" if "p = [] \<or> \<not> isOnline s"
    using that by (rule navigateToPath_rejected)
  have rest: "currentPath (navigateToPath h p a s) = Some (normalizePath p) \<and>
            currentItems (navigateToPath h p a s) = Some (data d) \<and>
            fileList (navigateToPath h p a s) =
              (if data d = [] then EmptyState
               else if currentView s = ListView \<and> length (data d) > 1000
               then RenderedVirtual 0 (slice (data d) 0 (visibleItems s))
                      ((int (length (data d)) - int (visibleItems s)) * 36)
               else if currentView s = DetailView then RenderedDetail (sortedItems h (data d))
               else RenderedAll (sortedItems h (data d))) \<and>
            mset (sortedItems h (data d)) = mset (data d) \<and>
            (currentView s \<noteq> ListView \<or> length (data d) \<le> 1000 \<longrightarrow>
               renders_exactly (fileList (navigateToPath h p a s)) (data d))"
    if "p \<noteq> [] \<and> isOnline s"
  proof -
    have p: "p \<noteq> []" and on: "isOnline s" using that by simp_all
    note hit = navigateToPath_cached[OF assms(2) ok p on, of h a]
    have all: "renders_exactly (fileList (navigateToPath h p a s)) (data d)"
      if "currentView s \<noteq> ListView \<or> length (data d) \<le> 1000"
      unfolding hit(3) renders_exactly_def using that
      by (auto simp: mset_sortedItems)
    show ?thesis using hit all mset_sortedItems[of h "data d"] by blast
  qed
  show ?thesis using calls noop rest by blast
qed

text \<open>
  The end-to-end case: after the first navigation to \<open>C:\\\<close> has listed three entries, a
  second navigation issues no further \<open>list\<close> call and shows the same three entries, the
  folders \<open>Users\<close> and \<open>Windows\<close> before the file \<open>pagefile.sys\<close>. And offline, the same
  navigation changes nothing.
\<close>

theorem C2_cached_navigation_witness:
  "visited_driveC = run [(listing_host, ConnectionStatus True), (listing_host, Navigate driveC True)] constructor \<and>
   map_get (normalizePath driveC) (cache visited_driveC) = Some driveC_listing \<and>
   driveC \<noteq> [] \<and> isOnline visited_driveC \<and>
   currentView visited_driveC = ListView \<and>
   length (data driveC_listing) = 3 \<and>
   apiCalls visited_driveC = [ListReq driveC] \<and>
   apiCalls (navigateToPath listing_host driveC True visited_driveC) = [ListReq driveC] \<and>
   currentPath (navigateToPath listing_host driveC True visited_driveC) = Some driveC \<and>
   currentItems (navigateToPath listing_host driveC True visited_driveC) = Some (data driveC_listing) \<and>
   fileList (navigateToPath listing_host driveC True visited_driveC)
     = RenderedAll [\<lparr>name = ''Users'', path = driveC @ ''Users'', is_file = False, fsize = None\<rparr>,
                    \<lparr>name = ''Windows'', path = driveC @ ''Windows'', is_file = False, fsize = None\<rparr>,
                    \<lparr>name = ''pagefile.sys'', path = driveC @ ''pagefile.sys'', is_file = True, fsize = Some 4096\<rparr>] \<and>
   renders_exactly (fileList (navigateToPath listing_host driveC True visited_driveC)) (data driveC_listing) \<and>
   offline_after_visits =
     run [(two_folder_host, ConnectionStatus True),
          (two_folder_host, Navigate driveC True),
          (two_folder_host, Navigate (driveC @ ''Users'') True),
          (two_folder_host, ConnectionStatus False)] constructor \<and>
   map_get (normalizePath driveC) (cache offline_after_visits) = Some driveC_listing \<and>
   \<not> isOnline offline_after_visits \<and>
   navigateToPath two_folder_host driveC True offline_after_visits = offline_after_visits"
proof -
  have a: "visited_driveC = run [(listing_host, ConnectionStatus True), (listing_host, Navigate driveC True)] constructor"
    by (simp only: visited_driveC_def)
  have b: "map_get (normalizePath driveC) (cache visited_driveC) = Some driveC_listing"
    by code_simp
  have c1: "driveC \<noteq> []" by (simp add: driveC_def)
  have c2: "isOnline visited_driveC" by code_simp
  have c3: "currentView visited_driveC = ListView" by code_simp
  have c4: "length (data driveC_listing) = 3" by (simp add: driveC_listing_def)
  have c5: "apiCalls visited_driveC = [ListReq driveC]" by code_simp
  have np: "normalizePath driveC = driveC" by code_simp
  have srt: "sortedItems listing_host (data driveC_listing)
     = [\<lparr>name = ''Users'', path = driveC @ ''Users'', is_file = False, fsize = None\<rparr>,
        \<lparr>name = ''Windows'', path = driveC @ ''Windows'', is_file = False, fsize = None\<rparr>,
        \<lparr>name = ''pagefile.sys'', path = driveC @ ''pagefile.sys'', is_file = True, fsize = Some 4096\<rparr>]"
    by code_simp
  have ne: "data driveC_listing \<noteq> []" using c4 by auto
  note inst = C2_cached_navigation[OF a b, of listing_host True]
  have calls: "apiCalls (navigateToPath listing_host driveC True visited_driveC) = apiCalls visited_driveC"
    using inst by blast
  have cp: "currentPath (navigateToPath listing_host driveC True visited_driveC) = Some (normalizePath driveC)"
    using inst c1 c2 by blast
  have ci: "currentItems (navigateToPath listing_host driveC True visited_driveC) = Some (data driveC_listing)"
    using inst c1 c2 by blast
  have fl: "fileList (navigateToPath listing_host driveC True visited_driveC) =
              (if data driveC_listing = [] then EmptyState
               else if currentView visited_driveC = ListView \<and> length (data driveC_listing) > 1000
               then RenderedVirtual 0 (slice (data driveC_listing) 0 (visibleItems visited_driveC))
                      ((int (length (data driveC_listing)) - int (visibleItems visited_driveC)) * 36)
               else if currentView visited_driveC = DetailView
               then RenderedDetail (sortedItems listing_host (data driveC_listing))
               else RenderedAll (sortedItems listing_host (data driveC_listing)))"
    using inst c1 c2 by blast
  have fl': "fileList (navigateToPath listing_host driveC True visited_driveC)
               = RenderedAll (sortedItems listing_host (data driveC_listing))"
    unfolding fl using ne c3 c4 by simp
  have small: "currentView visited_driveC \<noteq> ListView \<or> length (data driveC_listing) \<le> 1000"
    using c4 by simp
  have ex: "renders_exactly (fileList (navigateToPath listing_host driveC True visited_driveC))
              (data driveC_listing)"
    using inst c1 c2 small by blast
  have a': "offline_after_visits =
     run [(two_folder_host, ConnectionStatus True),
          (two_folder_host, Navigate driveC True),
          (two_folder_host, Navigate (driveC @ ''Users'') True),
          (two_folder_host, ConnectionStatus False)] constructor"
    by (simp only: offline_after_visits_def)
  have b': "map_get (normalizePath driveC) (cache offline_after_visits) = Some driveC_listing"
    by code_simp
  have c': "\<not> isOnline offline_after_visits" by code_simp
  note inst' = C2_cached_navigation[OF a' b', of two_folder_host True]
  have noop: "navigateToPath two_folder_host driveC True offline_after_visits = offline_after_visits"
    using inst' c' by blast
  have calls': "apiCalls (navigateToPath listing_host driveC True visited_driveC) = [ListReq driveC]"
    using calls c5 by simp
  have cp': "currentPath (navigateToPath listing_host driveC True visited_driveC) = Some driveC"
    using cp np by simp
  show ?thesis
    using a b c1 c2 c3 c4 c5 calls' cp' ci fl'[unfolded srt] ex a' b' c' noop by blast
qed

subsection \<open>Merging the search branches\<close>

lemma addResult_failed: "\<not> branch_succeeded r \<Longrightarrow> addResult m r = m"
  by (simp add: addResult_def branch_succeeded_def split: api_result.splits)

lemma foldl_addResult_filter:
  "foldl addResult m rs = foldl addResult m (filter branch_succeeded rs)"
  by (induction rs arbitrary: m) (simp_all add: addResult_failed)

lemma mergeResults_succeeded_only: "mergeResults rs = mergeResults (filter branch_succeeded rs)"
  unfolding mergeResults_def using foldl_addResult_filter[of "[]" rs] by simp

lemma fst_set_map_set: "fst ` set (map_set k v m) = insert k (fst ` set m)"
  by (induction m) (force split: if_splits)+

lemma distinct_map_set: "distinct (map fst m) \<Longrightarrow> distinct (map fst (map_set k v m))"
  by (induction m) (auto simp: fst_set_map_set)

lemma keyed_map_set: "keyed_by_path m \<Longrightarrow> keyed_by_path (map_set (path it) it m)"
  by (simp add: keyed_by_path_def distinct_map_set list_all_map_set)

lemma keyed_foldl_items:
  "keyed_by_path m \<Longrightarrow> keyed_by_path (foldl (\<lambda>m it. map_set (path it) it m) m its)"
  by (induction its arbitrary: m) (simp_all add: keyed_map_set)

lemma keys_foldl_items:
  "fst ` set (foldl (\<lambda>m it. map_set (path it) it m) m its) = fst ` set m \<union> path ` set its"
  by (induction its arbitrary: m) (auto simp: fst_set_map_set)

lemma keyed_addResult: "keyed_by_path m \<Longrightarrow> keyed_by_path (addResult m r)"
  by (simp add: addResult_def keyed_foldl_items split: api_result.splits)

lemma keyed_foldl_addResult: "keyed_by_path m \<Longrightarrow> keyed_by_path (foldl addResult m rs)"
  by (induction rs arbitrary: m) (simp_all add: keyed_addResult)

lemma keys_addResult:
  "fst ` set (addResult m r) = fst ` set m \<union> path ` set (succeeded_items [r])"
  by (simp add: addResult_def succeeded_items_def keys_foldl_items split: api_result.splits)

lemma keys_foldl_addResult:
  "fst ` set (foldl addResult m rs) = fst ` set m \<union> path ` set (succeeded_items rs)"
proof (induction rs arbitrary: m)
  case Nil
  then show ?case by (simp add: succeeded_items_def)
next
  case (Cons r rs)
  have "succeeded_items (r # rs) = succeeded_items [r] @ succeeded_items rs"
    by (simp add: succeeded_items_def)
  then show ?case using Cons.IH[of "addResult m r"] keys_addResult[of m r] by auto
qed

lemma keyed_paths: "keyed_by_path m \<Longrightarrow> map path (map_values m) = map fst m"
  by (induction m) (auto simp: keyed_by_path_def map_values_def)

lemma mergeResults_distinct: "distinct (map path (mergeResults rs))"
proof -
  have k: "keyed_by_path (foldl addResult [] rs)"
    by (rule keyed_foldl_addResult) (simp add: keyed_by_path_def)
  then show ?thesis using keyed_paths[OF k] by (simp add: mergeResults_def keyed_by_path_def)
qed

lemma mergeResults_paths: "path ` set (mergeResults rs) = path ` set (succeeded_items rs)"
proof -
  have k: "keyed_by_path (foldl addResult [] rs)"
    by (rule keyed_foldl_addResult) (simp add: keyed_by_path_def)
  have "path ` set (mergeResults rs) = set (map path (mergeResults rs))" by simp
  also have "\<dots> = set (map fst (foldl addResult [] rs))"
    using keyed_paths[OF k] by (simp add: mergeResults_def)
  also have "\<dots> = path ` set (succeeded_items rs)"
    using keys_foldl_addResult[of "[]" rs] by simp
  finally show ?thesis .
qed

text \<open>Every merged item was returned by a succeeded branch.\<close>

lemma values_map_set: "set (map_values (map_set k v m)) \<subseteq> insert v (set (map_values m))"
  by (induction m) (force simp: map_values_def split: if_splits)+

lemma values_foldl_items:
  "set (map_values (foldl (\<lambda>m it. map_set (path it) it m) m its)) \<subseteq> set (map_values m) \<union> set its"
proof (induction its arbitrary: m)
  case Nil
  then show ?case by simp
next
  case (Cons it its)
  show ?case using Cons.IH[of "map_set (path it) it m"] values_map_set[of "path it" it m] by auto
qed

lemma values_addResult:
  "set (map_values (addResult m r)) \<subseteq> set (map_values m) \<union> set (succeeded_items [r])"
  using values_foldl_items[of m]
  by (auto simp: addResult_def succeeded_items_def split: api_result.splits)

lemma values_foldl_addResult:
  "set (map_values (foldl addResult m rs)) \<subseteq> set (map_values m) \<union> set (succeeded_items rs)"
proof (induction rs arbitrary: m)
  case Nil
  then show ?case by simp
next
  case (Cons r rs)
  have "succeeded_items (r # rs) = succeeded_items [r] @ succeeded_items rs"
    by (simp add: succeeded_items_def)
  then show ?case using Cons.IH[of "addResult m r"] values_addResult[of m r] by auto
qed

lemma mergeResults_subset: "set (mergeResults rs) \<subseteq> set (succeeded_items rs)"
  using values_foldl_addResult[of "[]" rs] by (simp add: mergeResults_def map_values_def)

lemma mergeResults_all_failed: "\<forall>r \<in> set rs. \<not> branch_succeeded r \<Longrightarrow> mergeResults rs = []"
proof -
  assume "\<forall>r \<in> set rs. \<not> branch_succeeded r"
  then have "filter branch_succeeded rs = []" by (simp add: filter_empty_conv)
  then show ?thesis using mergeResults_succeeded_only[of rs] by (simp add: mergeResults_def map_values_def)
qed

text \<open>
  Claim C7. A search for a query that is not blank (\<open>trim\<close> leaves some character of
  it: it does not consist of white space, the no-break space included) and misses the
  Search Cache hands the
  backend the pattern \<open>*query*\<close> and, exactly when the query is longer than two
  characters, also \<open>*.query*\<close>, both before any answer is used. The merged result is the
  one the succeeded branches alone give: it holds only items they returned, one item for
  every path they returned and no path twice. The search ends with a success status; when
  every branch fails the result is the empty list, shown as the empty state.
\<close>

theorem C7_search_branches:
  assumes "trim query \<noteq> []"
      and "map_get (searchCacheKey s query) (searchCache s) = None"
  shows "(let results = map (apiCall h) (searchRequests s query);
              s' = performFastSearch h query s
          in apiCalls s' = apiCalls s @ searchRequests s query \<and>
             searchRequests s query =
               (let directory = path_or (currentPath s) (''C:'' @ [backslash])
                in SearchReq directory (''*'' @ query @ ''*'')
                   # (if length query > 2 then [SearchReq directory (''*.'' @ query @ ''*'')] else [])) \<and>
             currentItems s' = Some (rankResults query (mergeResults results)) \<and>
             mergeResults results = mergeResults (filter branch_succeeded results) \<and>
             set (mergeResults results) \<subseteq> set (succeeded_items results) \<and>
             path ` set (mergeResults results) = path ` set (succeeded_items results) \<and>
             distinct (map path (mergeResults results)) \<and>
             (\<exists>n. statusText s' = Some (MsgFound n, StSuccess)) \<and>
             ((\<forall>r \<in> set results. \<not> branch_succeeded r) \<longrightarrow>
                currentItems s' = Some [] \<and> fileList s' = EmptyState \<and>
                statusText s' = Some (MsgFound 0, StSuccess)))"
proof -
  let ?results = "map (apiCall h) (searchRequests s query)"
  let ?s' = "performFastSearch h query s"
  note miss = performFastSearch_miss[OF assms, of h]
  have calls: "apiCalls ?s' = apiCalls s @ searchRequests s query"
    using miss by (simp add: Let_def)
  have reqs: "searchRequests s query =
               (let directory = path_or (currentPath s) (''C:'' @ [backslash])
                in SearchReq directory (''*'' @ query @ ''*'')
                   # (if length query > 2 then [SearchReq directory (''*.'' @ query @ ''*'')] else []))"
    by (simp add: searchRequests_def)
  have items: "currentItems ?s' = Some (rankResults query (mergeResults ?results))"
    using miss by (simp add: Let_def)
  have status: "statusText ?s' = Some (MsgFound (length (rankResults query (mergeResults ?results))), StSuccess)"
    using miss by (simp add: Let_def)
  have empty: "currentItems ?s' = Some [] \<and> fileList ?s' = EmptyState \<and>
                statusText ?s' = Some (MsgFound 0, StSuccess)"
    if "\<forall>r \<in> set ?results. \<not> branch_succeeded r"
  proof -
    have "mergeResults ?results = []" using that by (rule mergeResults_all_failed)
    then have "rankResults query (mergeResults ?results) = []" by (simp add: rankResults_def sortBy_def)
    then show ?thesis using miss by (simp add: Let_def renderFileList_def showStatus_def)
  qed
  show ?thesis
    unfolding Let_def
    using calls reqs[unfolded Let_def] items status empty
          mergeResults_succeeded_only[of ?results] mergeResults_subset[of ?results]
          mergeResults_paths[of ?results] mergeResults_distinct[of ?results]
    by blast
qed

theorem C7_search_branches_witness:
  "trim ''log'' \<noteq> [] \<and> map_get (searchCacheKey constructor ''log'') (searchCache constructor) = None \<and>
   apiCalls (performFastSearch flaky_host ''log'' constructor)
     = [SearchReq driveC ''*log*'', SearchReq driveC ''*.log*''] \<and>
   map branch_succeeded (map (apiCall flaky_host) (searchRequests constructor ''log'')) = [True, False] \<and>
   currentItems (performFastSearch flaky_host ''log'' constructor)
     = Some (map named [''log.txt'', ''my-log-file.txt'', ''catalog.txt'', ''backlog.txt'']) \<and>
   map branch_succeeded (map (apiCall failing_host) (searchRequests constructor ''log'')) = [False, False] \<and>
   currentItems (performFastSearch failing_host ''log'' constructor) = Some [] \<and>
   fileList (performFastSearch failing_host ''log'' constructor) = EmptyState \<and>
   statusText (performFastSearch failing_host ''log'' constructor) = Some (MsgFound 0, StSuccess) \<and>
   trim (CHR 0xA0 # ''ab'') = ''ab'' \<and>
   apiCalls (performFastSearch failing_host (CHR 0xA0 # ''ab'') constructor)
     = [SearchReq driveC (''*'' @ CHR 0xA0 # ''ab*''), SearchReq driveC (''*.'' @ CHR 0xA0 # ''ab*'')] \<and>
   trim [CHR 0xA0] = [] \<and>
   apiCalls (performFastSearch failing_host [CHR 0xA0] constructor) = []"
proof -
  have a: "trim ''log'' \<noteq> []" by code_simp
  have b: "map_get (searchCacheKey constructor ''log'') (searchCache constructor) = None"
    by (simp add: constructor_def map_get_def)
  have r: "searchRequests constructor ''log'' = [SearchReq driveC ''*log*'', SearchReq driveC ''*.log*'']"
    by (simp add: searchRequests_def constructor_def path_or_def driveC_def Let_def)
  have c: "rankResults ''log'' (mergeResults (map (apiCall flaky_host) (searchRequests constructor ''log'')))
     = map named [''log.txt'', ''my-log-file.txt'', ''catalog.txt'', ''backlog.txt'']"
    by code_simp
  have d: "map branch_succeeded (map (apiCall flaky_host) (searchRequests constructor ''log'')) = [True, False]"
    by code_simp
  have f: "\<forall>r \<in> set (map (apiCall failing_host) (searchRequests constructor ''log'')). \<not> branch_succeeded r"
    by (simp add: failing_host_def branch_succeeded_def)
  have f': "map branch_succeeded (map (apiCall failing_host) (searchRequests constructor ''log'')) = [False, False]"
    by (simp add: r failing_host_def branch_succeeded_def)
  have g: "apiCalls constructor = []" by (simp add: constructor_def)
  note one_fails = C7_search_branches[OF a b, of flaky_host, unfolded Let_def]
  note all_fail = C7_search_branches[OF a b, of failing_host, unfolded Let_def]
  have calls: "apiCalls (performFastSearch flaky_host ''log'' constructor)
     = [SearchReq driveC ''*log*'', SearchReq driveC ''*.log*'']"
    using one_fails r g by simp
  have items: "currentItems (performFastSearch flaky_host ''log'' constructor)
     = Some (map named [''log.txt'', ''my-log-file.txt'', ''catalog.txt'', ''backlog.txt''])"
    using one_fails c by simp
  have empty: "currentItems (performFastSearch failing_host ''log'' constructor) = Some [] \<and>
     fileList (performFastSearch failing_host ''log'' constructor) = EmptyState \<and>
     statusText (performFastSearch failing_host ''log'' constructor) = Some (MsgFound 0, StSuccess)"
    using all_fail f by blast
  have a2: "trim (CHR 0xA0 # ''ab'') = ''ab''" by code_simp
  then have a2': "trim (CHR 0xA0 # ''ab'') \<noteq> []" by simp
  have b2: "map_get (searchCacheKey constructor (CHR 0xA0 # ''ab'')) (searchCache constructor) = None"
    by (simp add: constructor_def map_get_def)
  have r2: "searchRequests constructor (CHR 0xA0 # ''ab'')
     = [SearchReq driveC (''*'' @ CHR 0xA0 # ''ab*''), SearchReq driveC (''*.'' @ CHR 0xA0 # ''ab*'')]"
    by (simp add: searchRequests_def constructor_def path_or_def driveC_def Let_def)
  note padded = C7_search_branches[OF a2' b2, of failing_host, unfolded Let_def]
  have calls2: "apiCalls (performFastSearch failing_host (CHR 0xA0 # ''ab'') constructor)
     = [SearchReq driveC (''*'' @ CHR 0xA0 # ''ab*''), SearchReq driveC (''*.'' @ CHR 0xA0 # ''ab*'')]"
    using padded r2 g by simp
  have n1: "trim [CHR 0xA0] = []" by code_simp
  have n2: "apiCalls (performFastSearch failing_host [CHR 0xA0] constructor) = []"
    by (simp add: performFastSearch_blank[OF n1] constructor_def)
  show ?thesis
    using a b calls d items f' empty a2 calls2 n1 n2 by blast
qed

subsection \<open>Waveform normalisation\<close>

lemma math_max_zeros: "0 < n \<Longrightarrow> math_max (replicate n (Num 0)) = Num 0"
proof -
  have "foldl js_max2 (Num 0) (replicate k (Num 0)) = Num 0" for k
    by (induction k) simp_all
  moreover assume "0 < n"
  then obtain k where "n = Suc k" by (cases n) auto
  ultimately show ?thesis by (simp add: math_max_def)
qed

lemma block_index_in_range:
  assumes "0 < samples" "i < samples" "j < length rawData div samples"
  shows "(length rawData div samples) * i + j < length rawData"
proof -
  let ?b = "length rawData div samples"
  have "?b * i + j < ?b * i + ?b" using assms(3) by simp
  also have "\<dots> = ?b * Suc i" by simp
  also have "\<dots> \<le> ?b * samples" using assms(2) by (intro mult_le_mono2) simp
  also have "\<dots> \<le> length rawData" by (simp add: mult.commute)
  finally show ?thesis .
qed

lemma filteredData_silent:
  assumes "0 < samples" "samples \<le> length rawData" "\<forall>x \<in> set rawData. x = 0"
  shows "filteredData rawData samples = replicate samples (Num 0)"
proof -
  let ?b = "length rawData div samples"
  have b: "0 < ?b" using assms(1,2) by (simp add: div_greater_zero_iff)
  have z: "rawData ! (?b * i + j) = 0" if "i < samples" "j < ?b" for i j
    using block_index_in_range[OF assms(1) that] assms(3) by (meson nth_mem)
  have "(\<Sum>j\<leftarrow>[0..<?b]. \<bar>rawData ! (?b * i + j)\<bar>) = 0" if "i < samples" for i
  proof -
    have "map (\<lambda>j. \<bar>rawData ! (?b * i + j)\<bar>) [0..<?b] = map (\<lambda>j. 0) [0..<?b]"
      using z[OF that] by (intro map_cong) simp_all
    then show ?thesis by (simp add: sum_list_replicate map_replicate_const)
  qed
  then have "map (\<lambda>i. js_div (Num (\<Sum>j\<leftarrow>[0..<?b]. \<bar>rawData ! (?b * i + j)\<bar>)) (Num (real ?b))) [0..<samples]
           = map (\<lambda>i. Num 0) [0..<samples]"
    using b by (intro map_cong) simp_all
  then show ?thesis by (simp add: filteredData_def Let_def map_replicate_const)
qed

text \<open>
  Claim C8. The claim asks that an all-silent channel is normalised without a division by
  zero, to an all-zero series. In the code every block mean of a silent channel is 0, the
  channel's maximum is 0, and each \<open>val / maxValue\<close> is \<open>0 / 0\<close>: the normalised series is
  \<open>NaN\<close> at every point.
\<close>

theorem C8_silent_channel_is_NaN:
  assumes "0 < samples" "samples \<le> length rawData" "\<forall>x \<in> set rawData. x = 0"
  shows "filteredData rawData samples = replicate samples (Num 0) \<and>
         math_max (filteredData rawData samples) = Num 0 \<and>
         normalizedData rawData samples = replicate samples NaN"
proof -
  have fd: "filteredData rawData samples = replicate samples (Num 0)"
    using assms by (rule filteredData_silent)
  have mx: "math_max (filteredData rawData samples) = Num 0"
    using fd math_max_zeros[OF assms(1)] by simp
  have "normalizedData rawData samples = map (\<lambda>val. js_div val (Num 0)) (replicate samples (Num 0))"
    using fd mx by (simp add: normalizedData_def Let_def)
  then show ?thesis using fd mx by simp
qed

theorem C8_silent_channel_is_NaN_witness:
  "(0::nat) < 2 \<and> 2 \<le> length [0, 0, 0, 0 :: real] \<and> set [0, 0, 0, 0 :: real] = {0} \<and>
   filteredData [0, 0, 0, 0] 2 = [Num 0, Num 0] \<and>
   math_max (filteredData [0, 0, 0, 0] 2) = Num 0 \<and>
   normalizedData [0, 0, 0, 0] 2 = [NaN, NaN]"
proof -
  have two: "replicate 2 x = [x, x]" for x :: jsnum
    by (simp add: numeral_2_eq_2)
  have h: "(0::nat) < 2" "2 \<le> length [0, 0, 0, 0 :: real]" "\<forall>x \<in> set [0, 0, 0, 0 :: real]. x = 0"
    by simp_all
  note inst = C8_silent_channel_is_NaN[OF h]
  have a: "filteredData [0, 0, 0, 0] 2 = [Num 0, Num 0]"
    using inst by (simp only: two)
  have b: "math_max (filteredData [0, 0, 0, 0] 2) = Num 0"
    using inst by (rule conjunct2[THEN conjunct1])
  have c: "normalizedData [0, 0, 0, 0] 2 = [NaN, NaN]"
    using inst by (simp only: two)
  have d: "set [0, 0, 0, 0 :: real] = {0}" by simp
  show ?thesis
    by (intro conjI a b c d) simp_all
qed

text \<open>
  What does hold: a channel with at least \<open>samples\<close> samples and a block mean that is not
  zero is normalised to a series whose maximum is exactly 1.
\<close>

lemma js_max2_Num_fold: "foldl js_max2 (Num a) (map Num xs) = Num (fold max xs a)"
  by (induction xs arbitrary: a) (simp_all add: max.commute)

lemma math_max_Num: "xs \<noteq> [] \<Longrightarrow> math_max (map Num xs) = Num (Max (set xs))"
proof -
  assume "xs \<noteq> []"
  then obtain x rest where xs: "xs = x # rest" by (cases xs) auto
  show ?thesis
    using Max.set_eq_fold[of x rest] by (simp add: xs math_max_def js_max2_Num_fold)
qed

lemma filteredData_means:
  assumes "0 < samples" "samples \<le> length rawData"
  shows "filteredData rawData samples = map Num (map (block_mean rawData samples) [0..<samples])"
proof -
  have "0 < length rawData div samples" using assms by (simp add: div_greater_zero_iff)
  then show ?thesis by (simp add: filteredData_def block_mean_def Let_def)
qed

lemma nonsilent_channel_peaks_at_one:
  assumes "0 < samples" "samples \<le> length rawData"
      and "\<exists>i < samples. block_mean rawData samples i \<noteq> 0"
  shows "math_max (normalizedData rawData samples) = Num 1"
proof -
  let ?ms = "map (block_mean rawData samples) [0..<samples]"
  let ?M = "Max (set ?ms)"
  have ne: "?ms \<noteq> []" using assms(1) by simp
  have nonneg: "0 \<le> m" if "m \<in> set ?ms" for m
    using that by (auto simp: block_mean_def Let_def intro!: divide_nonneg_nonneg sum_list_nonneg)
  obtain i where i: "i < samples" "block_mean rawData samples i \<noteq> 0" using assms(3) by blast
  have mem: "block_mean rawData samples i \<in> set ?ms" using i(1) by simp
  have "0 < block_mean rawData samples i" using nonneg[OF mem] i(2) by simp
  also have "\<dots> \<le> ?M" using mem by (intro Max_ge) simp_all
  finally have Mpos: "0 < ?M" .
  have fd: "filteredData rawData samples = map Num ?ms" using assms(1,2) by (rule filteredData_means)
  have mx: "math_max (filteredData rawData samples) = Num ?M"
    unfolding fd using ne by (rule math_max_Num)
  have "normalizedData rawData samples = map (\<lambda>val. js_div val (Num ?M)) (map Num ?ms)"
    unfolding normalizedData_def Let_def mx unfolding fd ..
  also have "\<dots> = map Num (map (\<lambda>m. m / ?M) ?ms)"
    using Mpos by simp
  finally have nd: "normalizedData rawData samples = map Num (map (\<lambda>m. m / ?M) ?ms)" .
  have "Max (set (map (\<lambda>m. m / ?M) ?ms)) = 1"
  proof (rule Max_eqI)
    show "finite (set (map (\<lambda>m. m / ?M) ?ms))" by simp
    show "y \<le> 1" if yin: "y \<in> set (map (\<lambda>m. m / ?M) ?ms)" for y
    proof -
      obtain m where m: "m \<in> set ?ms" "y = m / ?M" using yin by auto
      have "m \<le> ?M" using m(1) by (intro Max_ge) simp_all
      then show ?thesis using Mpos m(2) by simp
    qed
    have "?M \<in> set ?ms" using ne by (intro Max_in) simp_all
    then have "?M / ?M \<in> set (map (\<lambda>m. m / ?M) ?ms)" by (metis (no_types, lifting) image_eqI set_map)
    then show "1 \<in> set (map (\<lambda>m. m / ?M) ?ms)" using Mpos by simp
  qed
  moreover have "map (\<lambda>m. m / ?M) ?ms \<noteq> []" using ne by simp
  ultimately show ?thesis
    unfolding nd using math_max_Num[of "map (\<lambda>m. m / ?M) ?ms"] by simp
qed

text \<open>
  Claim C9. When the \<open>list\<close> call of a navigation fails (the path is not cached and the
  call throws, times out or returns an unsuccessful envelope), the current path, the
  history with its index and the Directory Cache are what they were before, and so are the
  rendered file list and the current items. The failure is surfaced as a status message
  only: the state after the call is the state before it with the error status set and the
  call recorded in the invocation log, and nothing else changed (the call is a no-op when
  the path is empty or the client is offline).
\<close>

theorem C9_failed_navigation_frame:
  assumes "\<not> map_has (normalizePath p) (cache s)"
      and "list_fails h (normalizePath p)"
  shows "currentPath (navigateToPath h p a s) = currentPath s \<and>
         history (navigateToPath h p a s) = history s \<and>
         historyIndex (navigateToPath h p a s) = historyIndex s \<and>
         cache (navigateToPath h p a s) = cache s \<and>
         fileList (navigateToPath h p a s) = fileList s \<and>
         currentItems (navigateToPath h p a s) = currentItems s \<and>
         navigateToPath h p a s =
           (if p = [] \<or> \<not> isOnline s then s
            else s\<lparr>statusText := Some (MsgError (failure_message h (normalizePath p)), StError),
                   apiCalls := apiCalls s @ [ListReq (normalizePath p)]\<rparr>) \<and>
         (p \<noteq> [] \<and> isOnline s \<longrightarrow>
            apiCalls (navigateToPath h p a s) = apiCalls s @ [ListReq (normalizePath p)] \<and>
            statusText (navigateToPath h p a s)
              = Some (MsgError (failure_message h (normalizePath p)), StError))"
proof -
  have miss: "map_get (normalizePath p) (cache s) = None"
    using assms(1) by (simp add: map_has_def map_get_def)
  have eq: "navigateToPath h p a s =
           (if p = [] \<or> \<not> isOnline s then s
            else s\<lparr>statusText := Some (MsgError (failure_message h (normalizePath p)), StError),
                   apiCalls := apiCalls s @ [ListReq (normalizePath p)]\<rparr>)"
    using assms(2) miss
    by (auto simp: navigateToPath_def navigate_finish_def list_fails_def failure_message_def
                   showStatus_def Let_def
             split: api_result.splits)
  show ?thesis
    unfolding eq by simp
qed

text \<open>
  A failed navigation from the page of \<open>C:\\\<close>: once with a backend that times out, once
  with one that refuses. The path, the history, the cache and the three rendered rows stay.
\<close>

theorem C9_failed_navigation_frame_witness:
  "\<not> map_has (normalizePath ''C:/temp'') (cache visited_driveC) \<and>
   list_fails failing_host (normalizePath ''C:/temp'') \<and>
   list_fails refusing_host (normalizePath ''C:/temp'') \<and>
   ''C:/temp'' \<noteq> [] \<and> isOnline visited_driveC \<and>
   navigateToPath failing_host ''C:/temp'' True visited_driveC
     = visited_driveC\<lparr>statusText := Some (MsgError ''timeout'', StError),
                       apiCalls := [ListReq driveC, ListReq (driveC @ ''temp'')]\<rparr> \<and>
   navigateToPath refusing_host ''C:/temp'' True visited_driveC
     = visited_driveC\<lparr>statusText := Some (MsgError ''Access denied'', StError),
                       apiCalls := [ListReq driveC, ListReq (driveC @ ''temp'')]\<rparr> \<and>
   currentPath (navigateToPath failing_host ''C:/temp'' True visited_driveC) = Some driveC \<and>
   history (navigateToPath failing_host ''C:/temp'' True visited_driveC) = [driveC] \<and>
   historyIndex (navigateToPath failing_host ''C:/temp'' True visited_driveC) = 0 \<and>
   cache (navigateToPath failing_host ''C:/temp'' True visited_driveC) = [(driveC, driveC_listing)] \<and>
   currentItems (navigateToPath failing_host ''C:/temp'' True visited_driveC) = Some (data driveC_listing) \<and>
   fileList (navigateToPath failing_host ''C:/temp'' True visited_driveC)
     = RenderedAll [\<lparr>name = ''Users'', path = driveC @ ''Users'', is_file = False, fsize = None\<rparr>,
                    \<lparr>name = ''Windows'', path = driveC @ ''Windows'', is_file = False, fsize = None\<rparr>,
                    \<lparr>name = ''pagefile.sys'', path = driveC @ ''pagefile.sys'', is_file = True, fsize = Some 4096\<rparr>]"
proof -
  have a: "\<not> map_has (normalizePath ''C:/temp'') (cache visited_driveC)" by code_simp
  have b: "list_fails failing_host (normalizePath ''C:/temp'')"
    by (simp add: list_fails_def failing_host_def)
  have b': "list_fails refusing_host (normalizePath ''C:/temp'')"
    by (simp add: list_fails_def refusing_host_def)
  have c: "currentPath visited_driveC = Some driveC" by code_simp
  have d: "history visited_driveC = [driveC]" by code_simp
  have e: "historyIndex visited_driveC = 0" by code_simp
  have f: "cache visited_driveC = [(driveC, driveC_listing)]" by code_simp
  have g: "currentItems visited_driveC = Some (data driveC_listing)" by code_simp
  have h: "fileList visited_driveC
     = RenderedAll [\<lparr>name = ''Users'', path = driveC @ ''Users'', is_file = False, fsize = None\<rparr>,
                    \<lparr>name = ''Windows'', path = driveC @ ''Windows'', is_file = False, fsize = None\<rparr>,
                    \<lparr>name = ''pagefile.sys'', path = driveC @ ''pagefile.sys'', is_file = True, fsize = Some 4096\<rparr>]"
    by code_simp
  have i: "isOnline visited_driveC" by code_simp
  have j: "apiCalls visited_driveC = [ListReq driveC]" by code_simp
  have k: "normalizePath ''C:/temp'' = driveC @ ''temp''" by code_simp
  have l: "failure_message failing_host (driveC @ ''temp'') = ''timeout''"
    by (simp add: failure_message_def failing_host_def)
  have l': "failure_message refusing_host (driveC @ ''temp'') = ''Access denied''"
    by (simp add: failure_message_def refusing_host_def)
  note times_out = C9_failed_navigation_frame[OF a b, of True]
  note refuses = C9_failed_navigation_frame[OF a b', of True]
  have m: "navigateToPath failing_host ''C:/temp'' True visited_driveC
     = visited_driveC\<lparr>statusText := Some (MsgError ''timeout'', StError),
                       apiCalls := [ListReq driveC, ListReq (driveC @ ''temp'')]\<rparr>"
    using times_out i j k l by simp
  have m': "navigateToPath refusing_host ''C:/temp'' True visited_driveC
     = visited_driveC\<lparr>statusText := Some (MsgError ''Access denied'', StError),
                       apiCalls := [ListReq driveC, ListReq (driveC @ ''temp'')]\<rparr>"
    using refuses i j k l' by simp
  have n: "currentPath (navigateToPath failing_host ''C:/temp'' True visited_driveC) = Some driveC \<and>
   history (navigateToPath failing_host ''C:/temp'' True visited_driveC) = [driveC] \<and>
   historyIndex (navigateToPath failing_host ''C:/temp'' True visited_driveC) = 0 \<and>
   cache (navigateToPath failing_host ''C:/temp'' True visited_driveC) = [(driveC, driveC_listing)] \<and>
   currentItems (navigateToPath failing_host ''C:/temp'' True visited_driveC) = Some (data driveC_listing)"
    using times_out c d e f g by simp
  have o: "fileList (navigateToPath failing_host ''C:/temp'' True visited_driveC) = fileList visited_driveC"
    using times_out by blast
  show ?thesis
    using a b b' i m m' n o[unfolded h] by simp
qed

subsection \<open>Leaving search mode\<close>



end

